theory Spec2Isabelle
  imports Main "HOL-Library.Char_ord" "HOL-Library.List_Lexorder" "HOL-Library.AList"
begin

section \<open>Dependency rule set and validator (bazel\_dependency\_analyzer.py)\<close>

text \<open>
  \<^verbatim>\<open>DependencyAnalyzer.valid_dependencies\<close> is a dict from a package name to the list of
  packages it may depend on. Only lookups by key are made on it, so it is a map.
  \<^verbatim>\<open>package_deps\<close> is a \<^verbatim>\<open>defaultdict(set)\<close> that is iterated: it is an association
  list in the dict's (insertion) order, each set given as the list of its elements in
  the order Python iterates it.
\<close>

type_synonym rule_set = "string \<rightharpoonup> string list"
type_synonym package_deps = "(string \<times> string list) list"

definition valid_dependencies :: rule_set where
  "valid_dependencies = map_of
     [(''UmbraErrorKit'', [''UmbraCoreTypes'']),
      (''UmbraInterfaces'', [''UmbraCoreTypes'', ''UmbraErrorKit'']),
      (''UmbraUtils'', [''UmbraCoreTypes'']),
      (''UmbraImplementations'',
         [''UmbraInterfaces'', ''UmbraCoreTypes'', ''UmbraErrorKit'', ''UmbraUtils'']),
      (''UmbraFoundationBridge'', [''UmbraCoreTypes'']),
      (''ResticKit'', [''UmbraInterfaces'', ''UmbraCoreTypes'', ''UmbraUtils''])]"

text \<open>\<^verbatim>\<open>is_dependency_valid(self, source_pkg, target_pkg)\<close>, with the rule set explicit.\<close>

definition is_dependency_valid :: "rule_set \<Rightarrow> string \<Rightarrow> string \<Rightarrow> bool" where
  "is_dependency_valid rules source_pkg target_pkg =
     (if source_pkg = target_pkg then True
      else case rules source_pkg of
             None \<Rightarrow> False
           | Some allowed \<Rightarrow> target_pkg \<in> set allowed)"

text \<open>
  The validation loops of \<^verbatim>\<open>analyze_dependencies\<close>:
  \<^verbatim>\<open>
  invalid_deps = []
  for source_pkg, deps in package_deps.items():
      for target_pkg in deps:
          if not self.is_dependency_valid(source_pkg, target_pkg):
              invalid_deps.append((source_pkg, target_pkg))
  \<close>
  Both loops thread the list \<^verbatim>\<open>invalid_deps\<close>, which only grows at its end.
\<close>

fun check_targets ::
  "rule_set \<Rightarrow> string \<Rightarrow> string list \<Rightarrow> (string \<times> string) list \<Rightarrow> (string \<times> string) list" where
  "check_targets rules source_pkg [] invalid = invalid"
| "check_targets rules source_pkg (target_pkg # deps) invalid =
     check_targets rules source_pkg deps
       (if \<not> is_dependency_valid rules source_pkg target_pkg
        then invalid @ [(source_pkg, target_pkg)] else invalid)"

fun check_sources ::
  "rule_set \<Rightarrow> package_deps \<Rightarrow> (string \<times> string) list \<Rightarrow> (string \<times> string) list" where
  "check_sources rules [] invalid = invalid"
| "check_sources rules ((source_pkg, deps) # rest) invalid =
     check_sources rules rest (check_targets rules source_pkg deps invalid)"

definition invalid_deps :: "rule_set \<Rightarrow> package_deps \<Rightarrow> (string \<times> string) list" where
  "invalid_deps rules pdeps = check_sources rules pdeps []"

text \<open>The value \<^verbatim>\<open>analyze_dependencies\<close> returns once \<^verbatim>\<open>package_deps\<close> is built:
  \<^verbatim>\<open>False\<close> when \<^verbatim>\<open>invalid_deps\<close> is non-empty, \<^verbatim>\<open>True\<close> otherwise.\<close>

definition analyze_verdict :: "rule_set \<Rightarrow> package_deps \<Rightarrow> bool" where
  "analyze_verdict rules pdeps = (if invalid_deps rules pdeps \<noteq> [] then False else True)"

text \<open>All (source, target) edges of a mapping, in iteration order.\<close>

definition edges :: "package_deps \<Rightarrow> (string \<times> string) list" where
  "edges pdeps = concat (map (\<lambda>(source_pkg, deps). map (Pair source_pkg) deps) pdeps)"

section \<open>Fact store (alpha\_migration\_tracker.py)\<close>

datatype MigrationStatus = NOT_STARTED | IN_PROGRESS | COMPLETED | BLOCKED | SKIPPED

text \<open>A \<^verbatim>\<open>datetime.date\<close>: year, month and day.\<close>

record date =
  year :: nat
  month :: nat
  day :: nat

text \<open>The dataclass \<^verbatim>\<open>ModuleInfo\<close>. Its field \<^verbatim>\<open>notes\<close> is \<open>notes_str\<close> here.
  \<^verbatim>\<open>__post_init__\<close> replaces a \<^verbatim>\<open>blocking_issues\<close> of \<^verbatim>\<open>None\<close> by the empty list, so the
  field always holds a list.\<close>

record ModuleInfo =
  name :: string
  status :: MigrationStatus
  dependencies :: "string list"
  dependents :: "string list"
  migration_date :: "date option"
  blocking_issues :: "string list"
  notes_str :: string

text \<open>
  \<^verbatim>\<open>MigrationTracker.modules\<close> is a \<^verbatim>\<open>Dict[str, ModuleInfo]\<close>. Python dicts iterate in
  insertion order and the tracker iterates this one, so it is an association list in
  insertion order; a dict holds every key once (\<open>distinct (map fst modules)\<close>).
  Lookup \<^verbatim>\<open>d[k]\<close> is \<^const>\<open>map_of\<close>, the store \<^verbatim>\<open>d[k] = v\<close> is \<^const>\<open>AList.update\<close>: it
  replaces the value of a key in place and appends a new key at the end.
\<close>

type_synonym modules = "(string \<times> ModuleInfo) list"

text \<open>The Python exceptions the modelled code can raise. \<^verbatim>\<open>UnicodeDecodeError\<close> is a
  subclass of \<^verbatim>\<open>ValueError\<close>; it is kept apart because it arises while the file is read.\<close>

datatype py_error =
    KeyError string
  | ValueError
  | TypeError
  | AttributeError
  | UnicodeDecodeError
  | RecursionError

text \<open>\<^verbatim>\<open>add_module\<close>: builds a \<^verbatim>\<open>ModuleInfo\<close> and stores it under its name.\<close>

definition add_module ::
  "string \<Rightarrow> MigrationStatus \<Rightarrow> string list \<Rightarrow> string list \<Rightarrow> date option \<Rightarrow>
   string list option \<Rightarrow> string \<Rightarrow> modules \<Rightarrow> modules" where
  "add_module nm st deps dependents_arg mdate issues nts mods =
     (let blocking = (case issues of None \<Rightarrow> [] | Some bs \<Rightarrow> bs)
      in AList.update nm
           \<lparr>name = nm, status = st, dependencies = deps, dependents = dependents_arg,
            migration_date = mdate, blocking_issues = blocking, notes_str = nts\<rparr> mods)"

text \<open>
  \<^verbatim>\<open>update_module_status(self, name, status, migration_date=None, notes=None)\<close>. The
  method mutates the \<^verbatim>\<open>ModuleInfo\<close> object held under \<^verbatim>\<open>name\<close>; the model returns the
  boolean result together with the dict after the call. \<open>today\<close> is the value of
  \<^verbatim>\<open>datetime.date.today()\<close>. \<open>set_status\<close> is the object after the assignments to
  \<^verbatim>\<open>module.status\<close>, \<^verbatim>\<open>module.migration_date\<close> and \<^verbatim>\<open>module.notes\<close>.
\<close>

definition set_status ::
  "date \<Rightarrow> ModuleInfo \<Rightarrow> MigrationStatus \<Rightarrow> date option \<Rightarrow> string option \<Rightarrow> ModuleInfo" where
  "set_status today module new_status mdate nts =
     (let m1 = module\<lparr>status := new_status\<rparr>;
          m2 = (if new_status = COMPLETED \<and> mdate = None
                then m1\<lparr>migration_date := Some today\<rparr>
                else if mdate \<noteq> None then m1\<lparr>migration_date := mdate\<rparr>
                else m1)
      in (case nts of None \<Rightarrow> m2 | Some n \<Rightarrow> m2\<lparr>notes_str := n\<rparr>))"

definition update_module_status ::
  "date \<Rightarrow> modules \<Rightarrow> string \<Rightarrow> MigrationStatus \<Rightarrow> date option \<Rightarrow> string option \<Rightarrow>
   bool \<times> modules" where
  "update_module_status today mods nm new_status mdate nts =
     (case map_of mods nm of
        None \<Rightarrow> (False, mods)
      | Some module \<Rightarrow> (True, AList.update nm (set_status today module new_status mdate nts) mods))"

section \<open>Migration order (alpha\_migration\_tracker.py)\<close>

text \<open>
  \<^verbatim>\<open>get_migration_order\<close> runs a recursive depth-first search that mutates two
  variables of the enclosing call, the set \<^verbatim>\<open>visited\<close> and the list \<^verbatim>\<open>result\<close>:
  \<^verbatim>\<open>
  def dfs(module_name):
      if module_name in visited:
          return
      visited.add(module_name)
      for dep in self.modules[module_name].dependencies:
          if dep in self.modules:
              dfs(dep)
      result.append(module_name)
  \<close>
  The model threads the pair (\<^verbatim>\<open>visited\<close>, \<^verbatim>\<open>result\<close>) through the calls; \<open>visit_deps\<close> is
  the \<^verbatim>\<open>for\<close> loop. \<^verbatim>\<open>self.modules[module_name]\<close> raises \<^verbatim>\<open>KeyError\<close> for a name that is
  not a key, and the exception leaves every enclosing call.
\<close>

type_synonym dfs_state = "string set \<times> string list"

function dfs :: "modules \<Rightarrow> string \<Rightarrow> dfs_state \<Rightarrow> py_error + dfs_state"
  and visit_deps :: "modules \<Rightarrow> string list \<Rightarrow> dfs_state \<Rightarrow> py_error + dfs_state" where
  "dfs mods module_name (visited, result) =
     (if module_name \<in> visited then Inr (visited, result)
      else case map_of mods module_name of
             None \<Rightarrow> Inl (KeyError module_name)
           | Some info \<Rightarrow>
               (case visit_deps mods (dependencies info) (insert module_name visited, result) of
                  Inl e \<Rightarrow> Inl e
                | Inr (visited', result') \<Rightarrow> Inr (visited', result' @ [module_name])))"
| "visit_deps mods [] st = Inr st"
| "visit_deps mods (dep # deps) st =
     (if dep \<in> fst ` set mods
      then (case dfs mods dep st of
              Inl e \<Rightarrow> Inl e
            | Inr st' \<Rightarrow> visit_deps mods deps st')
      else visit_deps mods deps st)"
  by pat_completeness auto

text \<open>The search terminates because every call that does work marks a module of the
  dict that was not yet visited, and no call removes a mark.\<close>

lemma visited_mono_dom:
  "dfs_visit_deps_dom (Inl (mods, m, st)) \<Longrightarrow> dfs mods m st = Inr st' \<Longrightarrow> fst st \<subseteq> fst st'"
  "dfs_visit_deps_dom (Inr (mods, ds, st)) \<Longrightarrow> visit_deps mods ds st = Inr st' \<Longrightarrow> fst st \<subseteq> fst st'"
proof (induction mods m st and mods ds st arbitrary: st' and st' rule: dfs_visit_deps.pinduct)
  case (1 mods m visited result)
  show ?case
  proof (cases "m \<in> visited")
    case True
    with 1(1,3) show ?thesis by (simp add: dfs.psimps)
  next
    case False
    with 1(1,3) obtain info where info: "map_of mods m = Some info"
      by (cases "map_of mods m") (simp_all add: dfs.psimps)
    with False 1(1,3) obtain v r
      where inner: "visit_deps mods (dependencies info) (insert m visited, result) = Inr (v, r)"
        and st': "st' = (v, r @ [m])"
      by (cases "visit_deps mods (dependencies info) (insert m visited, result)")
         (auto simp: dfs.psimps)
    from 1(2) [OF False info inner] st' show ?thesis by simp
  qed
next
  case (2 mods st)
  then show ?case by (simp add: visit_deps.psimps)
next
  case (3 mods dep deps st)
  show ?case
  proof (cases "dep \<in> fst ` set mods")
    case True
    with 3(1,5) obtain st1 where first: "dfs mods dep st = Inr st1"
      and rest: "visit_deps mods deps st1 = Inr st'"
      by (cases "dfs mods dep st") (simp_all add: visit_deps.psimps)
    from 3(2) [OF True first] 3(3) [OF True first rest] show ?thesis by simp
  next
    case False
    with 3(1,5) have "visit_deps mods deps st = Inr st'"
      by (simp add: visit_deps.psimps)
    from 3(4) [OF False this] show ?thesis .
  qed
qed

termination dfs
proof (relation "measures
    [\<lambda>x. case x of Inl (mods, m, st) \<Rightarrow> card (fst ` set mods - fst st)
              | Inr (mods, ds, st) \<Rightarrow> card (fst ` set mods - fst st),
     \<lambda>x. case x of Inl _ \<Rightarrow> 0 | Inr (mods, ds, st) \<Rightarrow> Suc (length ds)]", goal_cases)
  case 1
  then show ?case by simp
next
  case (2 mods m visited result info)
  then have "m \<in> fst ` set mods"
    by (metis domI dom_map_of_conv_image_fst)
  with 2 have "card (fst ` set mods - insert m visited) < card (fst ` set mods - visited)"
    by (intro psubset_card_mono) auto
  then show ?case by simp
next
  case (3 mods dep deps st)
  then show ?case by simp
next
  case (4 mods dep deps st st')
  then have "fst st \<subseteq> fst st'" using visited_mono_dom(1) by blast
  then have "card (fst ` set mods - fst st') \<le> card (fst ` set mods - fst st)"
    by (intro card_mono) auto
  then show ?case by auto
next
  case (5 mods dep deps st)
  then show ?case by simp
qed

text \<open>
  The two seeding loops and the final reversal:
  \<^verbatim>\<open>
  for name, module in self.modules.items():
      if not module.dependents:
          dfs(name)
  for name in self.modules:
      dfs(name)
  return list(reversed(result))
  \<close>
\<close>

fun visit_roots :: "modules \<Rightarrow> modules \<Rightarrow> dfs_state \<Rightarrow> py_error + dfs_state" where
  "visit_roots mods [] st = Inr st"
| "visit_roots mods ((nm, module) # rest) st =
     (if dependents module = []
      then (case dfs mods nm st of
              Inl e \<Rightarrow> Inl e
            | Inr st' \<Rightarrow> visit_roots mods rest st')
      else visit_roots mods rest st)"

fun visit_all :: "modules \<Rightarrow> string list \<Rightarrow> dfs_state \<Rightarrow> py_error + dfs_state" where
  "visit_all mods [] st = Inr st"
| "visit_all mods (nm # rest) st =
     (case dfs mods nm st of
        Inl e \<Rightarrow> Inl e
      | Inr st' \<Rightarrow> visit_all mods rest st')"

text \<open>The state after both loops: \<open>snd\<close> of it is \<^verbatim>\<open>result\<close> before the reversal.\<close>

definition traverse :: "modules \<Rightarrow> py_error + dfs_state" where
  "traverse mods =
     (case visit_roots mods mods ({}, []) of
        Inl e \<Rightarrow> Inl e
      | Inr st \<Rightarrow> visit_all mods (map fst mods) st)"

definition get_migration_order :: "modules \<Rightarrow> py_error + string list" where
  "get_migration_order mods =
     (case traverse mods of
        Inl e \<Rightarrow> Inl e
      | Inr (visited, result) \<Rightarrow> Inr (rev result))"

text \<open>
  \<open>dfs\<close> above is the search on a stack without bound. Python bounds the stack: every call
  of \<^verbatim>\<open>dfs\<close> takes a frame, and a call that would pass the interpreter's recursion limit
  (\<^verbatim>\<open>sys.getrecursionlimit()\<close>, 1000 unless changed, and nothing in the repository changes
  it) raises \<^verbatim>\<open>RecursionError\<close>, which no caller catches. \<open>dfs_within frames\<close> is the search
  when \<open>frames\<close> further nested calls of \<^verbatim>\<open>dfs\<close> are possible: the recursion limit less
  the frames in use when \<^verbatim>\<open>get_migration_order\<close> starts the search. The loop over the
  dependencies runs in the frame of its call, so it hands the frames left to each call it
  makes.
\<close>

fun dfs_within :: "nat \<Rightarrow> modules \<Rightarrow> string \<Rightarrow> dfs_state \<Rightarrow> py_error + dfs_state"
  and visit_deps_within :: "nat \<Rightarrow> modules \<Rightarrow> string list \<Rightarrow> dfs_state \<Rightarrow> py_error + dfs_state" where
  "dfs_within 0 mods module_name st = Inl RecursionError"
| "dfs_within (Suc frames) mods module_name (visited, result) =
     (if module_name \<in> visited then Inr (visited, result)
      else case map_of mods module_name of
             None \<Rightarrow> Inl (KeyError module_name)
           | Some info \<Rightarrow>
               (case visit_deps_within frames mods (dependencies info)
                       (insert module_name visited, result) of
                  Inl e \<Rightarrow> Inl e
                | Inr (visited', result') \<Rightarrow> Inr (visited', result' @ [module_name])))"
| "visit_deps_within frames mods [] st = Inr st"
| "visit_deps_within frames mods (dep # deps) st =
     (if dep \<in> fst ` set mods
      then (case dfs_within frames mods dep st of
              Inl e \<Rightarrow> Inl e
            | Inr st' \<Rightarrow> visit_deps_within frames mods deps st')
      else visit_deps_within frames mods deps st)"

fun visit_roots_within :: "nat \<Rightarrow> modules \<Rightarrow> modules \<Rightarrow> dfs_state \<Rightarrow> py_error + dfs_state" where
  "visit_roots_within frames mods [] st = Inr st"
| "visit_roots_within frames mods ((nm, module) # rest) st =
     (if dependents module = []
      then (case dfs_within frames mods nm st of
              Inl e \<Rightarrow> Inl e
            | Inr st' \<Rightarrow> visit_roots_within frames mods rest st')
      else visit_roots_within frames mods rest st)"

fun visit_all_within :: "nat \<Rightarrow> modules \<Rightarrow> string list \<Rightarrow> dfs_state \<Rightarrow> py_error + dfs_state" where
  "visit_all_within frames mods [] st = Inr st"
| "visit_all_within frames mods (nm # rest) st =
     (case dfs_within frames mods nm st of
        Inl e \<Rightarrow> Inl e
      | Inr st' \<Rightarrow> visit_all_within frames mods rest st')"

definition traverse_within :: "nat \<Rightarrow> modules \<Rightarrow> py_error + dfs_state" where
  "traverse_within frames mods =
     (case visit_roots_within frames mods mods ({}, []) of
        Inl e \<Rightarrow> Inl e
      | Inr st \<Rightarrow> visit_all_within frames mods (map fst mods) st)"

definition get_migration_order_within :: "nat \<Rightarrow> modules \<Rightarrow> py_error + string list" where
  "get_migration_order_within frames mods =
     (case traverse_within frames mods of
        Inl e \<Rightarrow> Inl e
      | Inr (visited, result) \<Rightarrow> Inr (rev result))"

text \<open>The relation between the state before and after a call of the search: the call
  marks the modules \<open>new\<close>, all of the dict and none marked before, and appends exactly
  them to \<^verbatim>\<open>result\<close>.\<close>

definition grows :: "modules \<Rightarrow> dfs_state \<Rightarrow> string list \<Rightarrow> dfs_state \<Rightarrow> bool" where
  "grows mods st new st' \<longleftrightarrow>
     st' = (fst st \<union> set new, snd st @ new) \<and> distinct new \<and>
     set new \<inter> fst st = {} \<and> set new \<subseteq> fst ` set mods"

text \<open>
  The dependencies of a module that are themselves modules of the dict (the search skips
  the others), and the order property the returned list is measured against:
  \<open>dependents_first mods order\<close> says that every module of \<open>order\<close> stands before all its
  tracked dependencies. \<open>ranked rank mods\<close> says that the tracked dependencies are acyclic:
  a dependency has a smaller rank than the module that lists it.
\<close>

definition tracked_dependencies :: "modules \<Rightarrow> string \<Rightarrow> string list" where
  "tracked_dependencies mods m =
     (case map_of mods m of
        None \<Rightarrow> []
      | Some info \<Rightarrow> filter (\<lambda>d. d \<in> fst ` set mods) (dependencies info))"

fun dependents_first :: "modules \<Rightarrow> string list \<Rightarrow> bool" where
  "dependents_first mods [] = True"
| "dependents_first mods (m # rest) =
     (set (tracked_dependencies mods m) \<subseteq> set rest \<and> dependents_first mods rest)"

definition ranked :: "(string \<Rightarrow> nat) \<Rightarrow> modules \<Rightarrow> bool" where
  "ranked rank mods \<longleftrightarrow>
     (\<forall>m info d. map_of mods m = Some info \<longrightarrow> d \<in> set (dependencies info) \<longrightarrow>
        d \<in> fst ` set mods \<longrightarrow> rank d < rank m)"

section \<open>Persistence (alpha\_migration\_tracker.py)\<close>

text \<open>
  \<^verbatim>\<open>save_data\<close> writes the dict with \<^verbatim>\<open>json.dump\<close> and \<^verbatim>\<open>_load_data\<close> reads it with
  \<^verbatim>\<open>json.load\<close>. The Python values \<^verbatim>\<open>json.load\<close> can return are the type \<open>json\<close>; an
  object is the dict Python builds for it, in key order. A number is an integer here (of
  a number, the code below only looks at whether it is zero). The file the tracker reads
  is in one of four states: it does not exist; its bytes are not text in the encoding
  \<^verbatim>\<open>open\<close> reads it with, so that reading it inside \<^verbatim>\<open>json.load\<close> raises
  \<^verbatim>\<open>UnicodeDecodeError\<close>; it is text on which \<^verbatim>\<open>json.load\<close> raises
  \<^verbatim>\<open>json.JSONDecodeError\<close>; or \<^verbatim>\<open>json.load\<close> returns a value. Writing a value of
  strings, lists, \<^verbatim>\<open>None\<close> and dicts with \<^verbatim>\<open>json.dump\<close> leaves a file from which
  \<^verbatim>\<open>json.load\<close> returns that value; this is the one fact about the \<^verbatim>\<open>json\<close> module the
  model of \<^verbatim>\<open>save_data\<close> relies on.
\<close>

datatype json =
    JNull
  | JBool bool
  | JNumber int
  | JString string
  | JArray "json list"
  | JObject "(string \<times> json) list"

datatype data_file = NoFile | NotText | NotJson | Json json

text \<open>Python's truth value of a loaded value, as \<^verbatim>\<open>if module_data.get(...)\<close> tests it.\<close>

fun truthy :: "json \<Rightarrow> bool" where
  "truthy JNull = False"
| "truthy (JBool b) = b"
| "truthy (JNumber n) = (n \<noteq> 0)"
| "truthy (JString s) = (s \<noteq> [])"
| "truthy (JArray xs) = (xs \<noteq> [])"
| "truthy (JObject members) = (members \<noteq> [])"

text \<open>\<^verbatim>\<open>status.value\<close> and the enum call \<^verbatim>\<open>MigrationStatus(value)\<close>, which raises
  \<^verbatim>\<open>ValueError\<close> for anything that is not the value of a member.\<close>

fun status_value :: "MigrationStatus \<Rightarrow> string" where
  "status_value NOT_STARTED = ''Not Started''"
| "status_value IN_PROGRESS = ''In Progress''"
| "status_value COMPLETED = ''Completed''"
| "status_value BLOCKED = ''Blocked''"
| "status_value SKIPPED = ''Skipped''"

definition MigrationStatus_of :: "json \<Rightarrow> py_error + MigrationStatus" where
  "MigrationStatus_of v =
     (case v of
        JString s \<Rightarrow>
          (if s = ''Not Started'' then Inr NOT_STARTED
           else if s = ''In Progress'' then Inr IN_PROGRESS
           else if s = ''Completed'' then Inr COMPLETED
           else if s = ''Blocked'' then Inr BLOCKED
           else if s = ''Skipped'' then Inr SKIPPED
           else Inl ValueError)
      | _ \<Rightarrow> Inl ValueError)"

text \<open>
  \<^verbatim>\<open>datetime.date\<close> only builds valid dates: year 1 to 9999, month 1 to 12, and a day the
  month has. \<^verbatim>\<open>date.isoformat()\<close> writes \<^verbatim>\<open>YYYY-MM-DD\<close> with leading zeros, and
  \<^verbatim>\<open>date.fromisoformat\<close> reads that form back and raises \<^verbatim>\<open>ValueError\<close> on a string that
  is not a date. (Python 3.11 and later read further ISO 8601 spellings as well; a file
  written by \<^verbatim>\<open>save_data\<close> never holds one.)
\<close>

definition is_leap :: "nat \<Rightarrow> bool" where
  "is_leap y \<longleftrightarrow> y mod 4 = 0 \<and> (y mod 100 \<noteq> 0 \<or> y mod 400 = 0)"

definition days_in_month :: "nat \<Rightarrow> nat \<Rightarrow> nat" where
  "days_in_month y m =
     (if m = 2 then (if is_leap y then 29 else 28)
      else if m = 4 \<or> m = 6 \<or> m = 9 \<or> m = 11 then 30 else 31)"

definition valid_date :: "date \<Rightarrow> bool" where
  "valid_date d \<longleftrightarrow>
     1 \<le> year d \<and> year d \<le> 9999 \<and> 1 \<le> month d \<and> month d \<le> 12 \<and>
     1 \<le> day d \<and> day d \<le> days_in_month (year d) (month d)"

definition digit_char :: "nat \<Rightarrow> char" where
  "digit_char n = ''0123456789'' ! (n mod 10)"

definition digit_value :: "char \<Rightarrow> nat option" where
  "digit_value c = map_of (zip ''0123456789'' [0, 1, 2, 3, 4, 5, 6, 7, 8, 9]) c"

fun decimal :: "nat \<Rightarrow> nat \<Rightarrow> string" where
  "decimal 0 n = []"
| "decimal (Suc w) n = decimal w (n div 10) @ [digit_char n]"

fun number :: "nat \<Rightarrow> string \<Rightarrow> nat option" where
  "number acc [] = Some acc"
| "number acc (c # cs) =
     (case digit_value c of None \<Rightarrow> None | Some v \<Rightarrow> number (10 * acc + v) cs)"

definition isoformat :: "date \<Rightarrow> string" where
  "isoformat d = decimal 4 (year d) @ ''-'' @ decimal 2 (month d) @ ''-'' @ decimal 2 (day d)"

definition fromisoformat :: "string \<Rightarrow> py_error + date" where
  "fromisoformat s =
     (if length s = 10 \<and> s ! 4 = CHR ''-'' \<and> s ! 7 = CHR ''-'' then
        (case (number 0 (take 4 s), number 0 (take 2 (drop 5 s)), number 0 (drop 8 s)) of
           (Some y, Some m, Some d) \<Rightarrow>
             (let dt = \<lparr>year = y, month = m, day = d\<rparr>
              in if valid_date dt then Inr dt else Inl ValueError)
         | _ \<Rightarrow> Inl ValueError)
      else Inl ValueError)"

text \<open>
  \<^verbatim>\<open>_load_data\<close> stores what it reads for \<^verbatim>\<open>dependencies\<close>, \<^verbatim>\<open>dependents\<close>,
  \<^verbatim>\<open>blocking_issues\<close> and \<^verbatim>\<open>notes\<close> without looking at it. \<open>ModuleInfo\<close> holds these fields
  at their declared types, so a loaded value of another type cannot be followed further:
  that outcome is \<open>NotRepresentable\<close>, and it is no Python exception. It is reported only
  when building the \<^verbatim>\<open>ModuleInfo\<close> raised nothing.
\<close>

datatype load_error = Raised py_error | NotRepresentable string

fun str_list :: "json list \<Rightarrow> string list option" where
  "str_list [] = Some []"
| "str_list (JString s # vs) = (case str_list vs of None \<Rightarrow> None | Some ss \<Rightarrow> Some (s # ss))"
| "str_list (_ # vs) = None"

definition as_str_list :: "string \<Rightarrow> json \<Rightarrow> load_error + string list" where
  "as_str_list field v =
     (case v of
        JArray vs \<Rightarrow> (case str_list vs of None \<Rightarrow> Inl (NotRepresentable field) | Some ss \<Rightarrow> Inr ss)
      | _ \<Rightarrow> Inl (NotRepresentable field))"

definition as_blocking_issues :: "json option \<Rightarrow> load_error + string list" where
  "as_blocking_issues v =
     (case v of
        None \<Rightarrow> Inr []
      | Some JNull \<Rightarrow> Inr []
      | Some x \<Rightarrow> as_str_list ''blocking_issues'' x)"

definition as_notes :: "json option \<Rightarrow> load_error + string" where
  "as_notes v =
     (case v of
        None \<Rightarrow> Inr []
      | Some (JString s) \<Rightarrow> Inr s
      | Some _ \<Rightarrow> Inl (NotRepresentable ''notes''))"

text \<open>The argument \<^verbatim>\<open>migration_date=date.fromisoformat(module_data["migration_date"])
  if module_data.get("migration_date") else None\<close>; \<^verbatim>\<open>fromisoformat\<close> raises \<^verbatim>\<open>TypeError\<close>
  for an argument that is not a string.\<close>

definition load_migration_date :: "json option \<Rightarrow> py_error + date option" where
  "load_migration_date v =
     (case v of
        None \<Rightarrow> Inr None
      | Some x \<Rightarrow>
          (if truthy x then
             (case x of
                JString s \<Rightarrow> (case fromisoformat s of Inl e \<Rightarrow> Inl e | Inr d \<Rightarrow> Inr (Some d))
              | _ \<Rightarrow> Inl TypeError)
           else Inr None))"

text \<open>
  The call \<^verbatim>\<open>ModuleInfo(name=module_name, status=MigrationStatus(module_data["status"]),
  dependencies=module_data["dependencies"], dependents=module_data["dependents"], ...)\<close>,
  its arguments evaluated from left to right. \<^verbatim>\<open>module_data["status"]\<close> on a value that
  is not a dict raises \<^verbatim>\<open>TypeError\<close>, on a dict without the key \<^verbatim>\<open>KeyError\<close>.
\<close>

definition load_record :: "string \<Rightarrow> (string \<times> json) list \<Rightarrow> load_error + ModuleInfo" where
  "load_record module_name members =
     (case map_of members ''status'' of
        None \<Rightarrow> Inl (Raised (KeyError ''status''))
      | Some sv \<Rightarrow>
     (case MigrationStatus_of sv of
        Inl e \<Rightarrow> Inl (Raised e)
      | Inr st \<Rightarrow>
     (case map_of members ''dependencies'' of
        None \<Rightarrow> Inl (Raised (KeyError ''dependencies''))
      | Some deps \<Rightarrow>
     (case map_of members ''dependents'' of
        None \<Rightarrow> Inl (Raised (KeyError ''dependents''))
      | Some dpts \<Rightarrow>
     (case load_migration_date (map_of members ''migration_date'') of
        Inl e \<Rightarrow> Inl (Raised e)
      | Inr mdate \<Rightarrow>
     (case as_str_list ''dependencies'' deps of
        Inl e \<Rightarrow> Inl e
      | Inr deps' \<Rightarrow>
     (case as_str_list ''dependents'' dpts of
        Inl e \<Rightarrow> Inl e
      | Inr dpts' \<Rightarrow>
     (case as_blocking_issues (map_of members ''blocking_issues'') of
        Inl e \<Rightarrow> Inl e
      | Inr issues \<Rightarrow>
     (case as_notes (map_of members ''notes'') of
        Inl e \<Rightarrow> Inl e
      | Inr nts \<Rightarrow>
          Inr \<lparr>name = module_name, status = st, dependencies = deps', dependents = dpts',
               migration_date = mdate, blocking_issues = issues, notes_str = nts\<rparr>)))))))))"

definition load_module :: "string \<Rightarrow> json \<Rightarrow> load_error + ModuleInfo" where
  "load_module module_name module_data =
     (case module_data of
        JObject members \<Rightarrow> load_record module_name members
      | _ \<Rightarrow> Inl (Raised TypeError))"

text \<open>
  The loop \<^verbatim>\<open>for module_name, module_data in data.items()\<close>: it returns the dict as far
  as it was filled, and what stopped it, if anything. After a record that is not
  representable the program goes on; \<open>first_exception\<close> finds the exception a later record
  raises. If that is an exception the \<^verbatim>\<open>except\<close> clause does not catch, it leaves the
  method, and the loop reports it; otherwise the method returns with the value that is not
  representable in its dict.
\<close>

fun first_exception :: "(string \<times> json) list \<Rightarrow> py_error option" where
  "first_exception [] = None"
| "first_exception ((module_name, module_data) # rest) =
     (case load_module module_name module_data of
        Inl (Raised e) \<Rightarrow> Some e
      | _ \<Rightarrow> first_exception rest)"

fun load_items :: "(string \<times> json) list \<Rightarrow> modules \<Rightarrow> load_error option \<times> modules" where
  "load_items [] mods = (None, mods)"
| "load_items ((module_name, module_data) # rest) mods =
     (case load_module module_name module_data of
        Inl (Raised e) \<Rightarrow> (Some (Raised e), mods)
      | Inl (NotRepresentable field) \<Rightarrow>
          (case first_exception rest of
             None \<Rightarrow> (Some (NotRepresentable field), mods)
           | Some (KeyError k) \<Rightarrow> (Some (NotRepresentable field), mods)
           | Some e \<Rightarrow> (Some (Raised e), mods))
      | Inr info \<Rightarrow> load_items rest (AList.update module_name info mods))"

text \<open>\<^verbatim>\<open>_initialize_default_modules\<close>: eight calls of \<^verbatim>\<open>add_module\<close>.\<close>

definition initialize_default_modules :: "date \<Rightarrow> modules \<Rightarrow> modules" where
  "initialize_default_modules today mods =
     (let m1 = add_module ''UmbraErrors'' COMPLETED
                 [] [''CoreDTOs'', ''UserDefaults'', ''SecurityInterfaces'']
                 (Some today) None
                 ''Successfully migrated to Alpha Dot Five architecture.'' mods;
          m2 = add_module ''CoreDTOs'' IN_PROGRESS
                 [''UmbraErrors''] [''UserDefaults'', ''SecurityInterfaces'']
                 None None
                 ''Dependencies updated to use migrated UmbraErrors module.'' m1;
          m3 = add_module ''UserDefaults'' NOT_STARTED
                 [''UmbraErrors'', ''CoreDTOs''] [''SecurityInterfaces'']
                 None None
                 ''Planned for migration after CoreDTOs is complete.'' m2;
          m4 = add_module ''SecurityInterfaces'' NOT_STARTED
                 [''UmbraErrors'', ''CoreDTOs'', ''UserDefaults''] []
                 None None
                 ''Depends on UserDefaults migration.'' m3;
          m5 = add_module ''Notification'' NOT_STARTED [''UmbraErrors''] [] None None [] m4;
          m6 = add_module ''Scheduling'' NOT_STARTED [''UmbraErrors''] [] None None [] m5;
          m7 = add_module ''FileSystemTypes'' NOT_STARTED [] [''CoreDTOs''] None None [] m6
      in add_module ''SecurityTypes'' NOT_STARTED
           [] [''CoreDTOs'', ''SecurityInterfaces''] None None [] m7)"

text \<open>
  \<^verbatim>\<open>_load_data\<close>. The \<^verbatim>\<open>try\<close> block catches \<^verbatim>\<open>json.JSONDecodeError\<close> and \<^verbatim>\<open>KeyError\<close> and
  then calls \<^verbatim>\<open>_initialize_default_modules\<close> on the dict as it is; every other exception
  leaves the method, \<^verbatim>\<open>UnicodeDecodeError\<close> among them (it is a \<^verbatim>\<open>ValueError\<close>, not a
  \<^verbatim>\<open>json.JSONDecodeError\<close>). \<^verbatim>\<open>data.items()\<close> on a value that is not a dict raises
  \<^verbatim>\<open>AttributeError\<close>.
\<close>

definition load_data :: "date \<Rightarrow> data_file \<Rightarrow> modules \<Rightarrow> load_error + modules" where
  "load_data today file mods =
     (case file of
        NoFile \<Rightarrow> Inr (initialize_default_modules today mods)
      | NotText \<Rightarrow> Inl (Raised UnicodeDecodeError)
      | NotJson \<Rightarrow> Inr (initialize_default_modules today mods)
      | Json data \<Rightarrow>
          (case data of
             JObject items \<Rightarrow>
               (case load_items items mods of
                  (None, mods') \<Rightarrow> Inr mods'
                | (Some (Raised (KeyError k)), mods') \<Rightarrow> Inr (initialize_default_modules today mods')
                | (Some e, mods') \<Rightarrow> Inl e)
           | _ \<Rightarrow> Inl (Raised AttributeError)))"

text \<open>\<^verbatim>\<open>MigrationTracker.__init__\<close>: an empty dict, then \<^verbatim>\<open>_load_data\<close>.\<close>

definition MigrationTracker_init :: "date \<Rightarrow> data_file \<Rightarrow> load_error + modules" where
  "MigrationTracker_init today file = load_data today file []"

text \<open>\<^verbatim>\<open>save_data\<close>: the dict \<^verbatim>\<open>data\<close> it builds, and the file after \<^verbatim>\<open>json.dump\<close>.\<close>

definition save_record :: "ModuleInfo \<Rightarrow> json" where
  "save_record module_info =
     JObject
       [(''status'', JString (status_value (status module_info))),
        (''dependencies'', JArray (map JString (dependencies module_info))),
        (''dependents'', JArray (map JString (dependents module_info))),
        (''migration_date'',
           (case migration_date module_info of None \<Rightarrow> JNull | Some d \<Rightarrow> JString (isoformat d))),
        (''blocking_issues'', JArray (map JString (blocking_issues module_info))),
        (''notes'', JString (notes_str module_info))]"

fun save_items :: "modules \<Rightarrow> (string \<times> json) list \<Rightarrow> (string \<times> json) list" where
  "save_items [] data = data"
| "save_items ((module_name, module_info) # rest) data =
     save_items rest (AList.update module_name (save_record module_info) data)"

definition save_data :: "modules \<Rightarrow> data_file" where
  "save_data mods = Json (JObject (save_items mods []))"

section \<open>Example fact stores\<close>

text \<open>Three dicts built with \<^verbatim>\<open>add_module\<close>: a chain in which Y depends on X and Z on Y
  (with the \<^verbatim>\<open>dependents\<close> lists that follow from it), two modules that depend on each
  other, and three unrelated modules inserted as B, A, C.\<close>

definition example_date :: date where
  "example_date = \<lparr>year = 2025, month = 3, day = 14\<rparr>"

definition chain_modules :: modules where
  "chain_modules =
     add_module ''Z'' NOT_STARTED [''Y''] [] None None ''''
       (add_module ''Y'' NOT_STARTED [''X''] [''Z''] None None ''''
         (add_module ''X'' NOT_STARTED [] [''Y''] None None '''' []))"

definition chain_rank :: "string \<Rightarrow> nat" where
  "chain_rank nm = (if nm = ''X'' then 0 else if nm = ''Y'' then 1 else 2)"

definition cyclic_modules :: modules where
  "cyclic_modules =
     add_module ''B'' NOT_STARTED [''A''] [''A''] None None ''''
       (add_module ''A'' NOT_STARTED [''B''] [''B''] None None '''' [])"

definition unsorted_modules :: modules where
  "unsorted_modules =
     add_module ''C'' NOT_STARTED [] [] None None ''''
       (add_module ''A'' NOT_STARTED [] [] None None ''''
         (add_module ''B'' NOT_STARTED [] [] None None '''' []))"




section \<open>Properties of the rule set\<close>

text \<open>
  Claim C4. For every rule set and every pair of packages, \<^verbatim>\<open>is_dependency_valid\<close> is true
  exactly when the source equals the target or the target is in the allow-list configured
  for the source. For a source the rule set does not know and a different target it is
  false (a value, not an error), and for equal source and target it is true whatever the
  rule set holds.
\<close>

theorem is_dependency_valid_iff:
  "(is_dependency_valid rules src tgt \<longleftrightarrow>
      src = tgt \<or> (\<exists>allowed. rules src = Some allowed \<and> tgt \<in> set allowed))
   \<and> (rules src = None \<and> src \<noteq> tgt \<longrightarrow> is_dependency_valid rules src tgt = False)
   \<and> is_dependency_valid rules src src = True"
  by (auto simp: is_dependency_valid_def split: option.splits)

theorem is_dependency_valid_iff_witness:
  "valid_dependencies ''Unknown'' = None \<and> ''Unknown'' \<noteq> ''UmbraCoreTypes''
   \<and> is_dependency_valid valid_dependencies ''Unknown'' ''UmbraCoreTypes'' = False
   \<and> is_dependency_valid valid_dependencies ''Unknown'' ''Unknown'' = True
   \<and> is_dependency_valid valid_dependencies ''UmbraUtils'' ''UmbraCoreTypes'' = True"
  using is_dependency_valid_iff [of valid_dependencies "''Unknown''" "''UmbraCoreTypes''"]
    is_dependency_valid_iff [of valid_dependencies "''UmbraUtils''" "''UmbraCoreTypes''"]
  by (simp add: valid_dependencies_def)

section \<open>Properties of the validator\<close>

lemma check_targets_filter:
  "check_targets rules src deps invalid =
     invalid @ filter (\<lambda>(s, t). \<not> is_dependency_valid rules s t) (map (Pair src) deps)"
  by (induction deps arbitrary: invalid) auto

lemma check_sources_filter:
  "check_sources rules pdeps invalid =
     invalid @ filter (\<lambda>(s, t). \<not> is_dependency_valid rules s t) (edges pdeps)"
  by (induction pdeps arbitrary: invalid) (auto simp: edges_def check_targets_filter)

text \<open>
  Claim C2, as amended. For every input mapping, the validation loops collect exactly the
  pairs (source, target) of the mapping for which \<^verbatim>\<open>is_dependency_valid\<close> is false, each as
  often as the mapping holds it, in the order the mapping is iterated (sources in dict
  order, the targets of a source in the iteration order of its set); the list is not
  sorted.
\<close>

theorem invalid_deps_exact:
  "invalid_deps rules pdeps =
     filter (\<lambda>(s, t). \<not> is_dependency_valid rules s t) (edges pdeps)
   \<and> set (invalid_deps rules pdeps) =
     {(s, t). (\<exists>deps. (s, deps) \<in> set pdeps \<and> t \<in> set deps) \<and> \<not> is_dependency_valid rules s t}"
proof -
  have eq: "invalid_deps rules pdeps =
      filter (\<lambda>(s, t). \<not> is_dependency_valid rules s t) (edges pdeps)"
    by (simp add: invalid_deps_def check_sources_filter)
  have "set (edges pdeps) = {(s, t). \<exists>deps. (s, deps) \<in> set pdeps \<and> t \<in> set deps}"
    by (auto simp: edges_def)
  with eq show ?thesis by auto
qed

text \<open>
  The claim as written asks for a list ordered by source, then by target. A mapping whose
  sources were inserted as \<^verbatim>\<open>UmbraUtils\<close>, then \<^verbatim>\<open>UmbraErrorKit\<close>, each depending on the
  other, yields the two violations in that order, which is not sorted by source.
\<close>

theorem invalid_deps_unsorted_counterexample:
  "invalid_deps valid_dependencies
     [(''UmbraUtils'', [''UmbraErrorKit'']), (''UmbraErrorKit'', [''UmbraUtils''])]
     = [(''UmbraUtils'', ''UmbraErrorKit''), (''UmbraErrorKit'', ''UmbraUtils'')]
   \<and> \<not> sorted (map fst (invalid_deps valid_dependencies
     [(''UmbraUtils'', [''UmbraErrorKit'']), (''UmbraErrorKit'', [''UmbraUtils''])]))"
  by (simp add: invalid_deps_def is_dependency_valid_def valid_dependencies_def)

section \<open>Properties of the fact store\<close>

lemma map_of_absent: "nm \<notin> fst ` set mods \<Longrightarrow> map_of mods nm = None"
  by (simp add: map_of_eq_None_iff)

lemma map_of_present: "nm \<in> fst ` set mods \<Longrightarrow> \<exists>module. map_of mods nm = Some module"
  by (metis domD dom_map_of_conv_image_fst)

lemma update_keeps_keys: "k \<in> fst ` set al \<Longrightarrow> map fst (AList.update k v al) = map fst al"
  by (simp add: update_keys)

lemma update_nth_other:
  "i < length al \<Longrightarrow> fst (al ! i) \<noteq> k \<Longrightarrow> AList.update k v al ! i = al ! i"
proof (induction al arbitrary: i)
  case Nil
  then show ?case by simp
next
  case (Cons p al)
  then show ?case by (cases i) auto
qed

text \<open>
  Claim C6. For every Fact Store and every module name absent from it,
  \<^verbatim>\<open>update_module_status\<close> returns \<^verbatim>\<open>False\<close> (a result, no exception) and the Fact Store
  after the call is the Fact Store before it.
\<close>

theorem update_module_status_not_found:
  "nm \<notin> fst ` set mods \<Longrightarrow>
     update_module_status today mods nm new_status mdate nts = (False, mods)"
  by (simp add: update_module_status_def map_of_absent)

text \<open>
  Claim C7. For every Fact Store and every module name present in it,
  \<^verbatim>\<open>update_module_status\<close> with status \<^verbatim>\<open>COMPLETED\<close> and no explicit date succeeds, sets
  the module's status to \<^verbatim>\<open>COMPLETED\<close> and its migration date to the current date.
\<close>

theorem update_module_status_completed_today:
  assumes "nm \<in> fst ` set mods"
  shows "\<exists>mods' module'.
           update_module_status today mods nm COMPLETED None nts = (True, mods') \<and>
           map_of mods' nm = Some module' \<and>
           status module' = COMPLETED \<and> migration_date module' = Some today"
proof -
  from map_of_present [OF assms] obtain module where "map_of mods nm = Some module" ..
  then show ?thesis
    by (cases nts) (simp_all add: update_module_status_def set_status_def Let_def update_conv')
qed

text \<open>
  Claim C10. For every Fact Store and every module name present in it, a successful
  \<^verbatim>\<open>update_module_status\<close> keeps the keys of the dict and their order, leaves every entry
  under another name as it was, and in the named module keeps \<^verbatim>\<open>name\<close>,
  \<^verbatim>\<open>dependencies\<close>, \<^verbatim>\<open>dependents\<close> and \<^verbatim>\<open>blocking_issues\<close>; \<^verbatim>\<open>notes\<close> is kept as well
  when the \<^verbatim>\<open>notes\<close> argument is omitted.
\<close>

theorem update_module_status_frame:
  assumes "map_of mods nm = Some module"
  shows "\<exists>mods' module'.
           update_module_status today mods nm new_status mdate nts = (True, mods') \<and>
           map fst mods' = map fst mods \<and>
           (\<forall>i < length mods. fst (mods ! i) \<noteq> nm \<longrightarrow> mods' ! i = mods ! i) \<and>
           (\<forall>k. k \<noteq> nm \<longrightarrow> map_of mods' k = map_of mods k) \<and>
           map_of mods' nm = Some module' \<and>
           name module' = name module \<and>
           dependencies module' = dependencies module \<and>
           dependents module' = dependents module \<and>
           blocking_issues module' = blocking_issues module \<and>
           (nts = None \<longrightarrow> notes_str module' = notes_str module)"
proof -
  define m3 where "m3 = set_status today module new_status mdate nts"
  have res: "update_module_status today mods nm new_status mdate nts
               = (True, AList.update nm m3 mods)"
    using assms by (simp add: update_module_status_def m3_def)
  have key: "nm \<in> fst ` set mods"
    using assms by (metis domI dom_map_of_conv_image_fst)
  have keys: "map fst (AList.update nm m3 mods) = map fst mods"
    using key by (rule update_keeps_keys)
  have others: "\<forall>i < length mods. fst (mods ! i) \<noteq> nm \<longrightarrow> AList.update nm m3 mods ! i = mods ! i"
    by (simp add: update_nth_other)
  have lookups: "\<forall>k. k \<noteq> nm \<longrightarrow> map_of (AList.update nm m3 mods) k = map_of mods k"
    by (simp add: update_conv')
  have named: "map_of (AList.update nm m3 mods) nm = Some m3"
    by (simp add: update_conv')
  have fields: "name m3 = name module \<and> dependencies m3 = dependencies module \<and>
      dependents m3 = dependents module \<and> blocking_issues m3 = blocking_issues module"
    by (cases nts) (simp_all add: m3_def set_status_def Let_def)
  have nts: "nts = None \<longrightarrow> notes_str m3 = notes_str module"
    by (simp add: m3_def set_status_def Let_def)
  from res keys others lookups named fields nts show ?thesis by blast
qed

theorem update_module_status_not_found_witness:
  "''Ghost'' \<notin> fst ` set chain_modules \<and>
   update_module_status example_date chain_modules ''Ghost'' COMPLETED None None
     = (False, chain_modules)"
  using update_module_status_not_found [of "''Ghost''" chain_modules example_date COMPLETED None None]
  by (simp add: chain_modules_def add_module_def)

theorem update_module_status_completed_today_witness:
  "''Y'' \<in> fst ` set chain_modules \<and>
   (\<exists>mods' module'.
      update_module_status example_date chain_modules ''Y'' COMPLETED None None = (True, mods') \<and>
      map_of mods' ''Y'' = Some module' \<and>
      status module' = COMPLETED \<and> migration_date module' = Some example_date)"
  using update_module_status_completed_today [of "''Y''" chain_modules example_date None]
  by (simp add: chain_modules_def add_module_def)

theorem update_module_status_frame_witness:
  "map_of chain_modules ''Y'' =
     Some \<lparr>name = ''Y'', status = NOT_STARTED, dependencies = [''X''], dependents = [''Z''],
           migration_date = None, blocking_issues = [], notes_str = []\<rparr> \<and>
   (\<exists>mods' module'.
      update_module_status example_date chain_modules ''Y'' IN_PROGRESS None None = (True, mods') \<and>
      map fst mods' = map fst chain_modules \<and>
      map_of mods' ''X'' = map_of chain_modules ''X'' \<and>
      map_of mods' ''Y'' = Some module' \<and>
      name module' = ''Y'' \<and> dependencies module' = [''X''] \<and> dependents module' = [''Z''] \<and>
      blocking_issues module' = [] \<and> notes_str module' = [])"
proof -
  have h: "map_of chain_modules ''Y'' =
     Some \<lparr>name = ''Y'', status = NOT_STARTED, dependencies = [''X''], dependents = [''Z''],
           migration_date = None, blocking_issues = [], notes_str = []\<rparr>"
    by (simp add: chain_modules_def add_module_def)
  from update_module_status_frame [OF h, of example_date IN_PROGRESS None None]
  obtain mods' module' where
    r: "update_module_status example_date chain_modules ''Y'' IN_PROGRESS None None = (True, mods')"
      "map fst mods' = map fst chain_modules"
      "\<forall>k. k \<noteq> ''Y'' \<longrightarrow> map_of mods' k = map_of chain_modules k"
      "map_of mods' ''Y'' = Some module'"
      "name module' = ''Y''" "dependencies module' = [''X'']" "dependents module' = [''Z'']"
      "blocking_issues module' = []" "notes_str module' = []"
    by auto
  from r(3) have "map_of mods' ''X'' = map_of chain_modules ''X''" by simp
  with h r show ?thesis by blast
qed

section \<open>Properties of the migration order\<close>

lemma grows_refl: "grows mods st [] st"
  by (simp add: grows_def)

lemma grows_trans:
  "grows mods st new1 st1 \<Longrightarrow> grows mods st1 new2 st2 \<Longrightarrow> grows mods st (new1 @ new2) st2"
  by (auto simp: grows_def)

lemma dfs_grows:
  "m \<in> fst ` set mods \<Longrightarrow>
     \<exists>new st'. dfs mods m st = Inr st' \<and> grows mods st new st' \<and> m \<in> fst st'"
  "\<exists>new st'. visit_deps mods ds st = Inr st' \<and> grows mods st new st' \<and>
     set ds \<inter> fst ` set mods \<subseteq> fst st'"
proof (induction mods m st and mods ds st rule: dfs_visit_deps.induct)
  case (1 mods m visited result)
  show ?case
  proof (cases "m \<in> visited")
    case True
    then show ?thesis using grows_refl by fastforce
  next
    case False
    from 1(2) obtain info where info: "map_of mods m = Some info"
      by (metis domD dom_map_of_conv_image_fst)
    from 1(1) [OF False info] obtain new v r
      where inner: "visit_deps mods (dependencies info) (insert m visited, result) = Inr (v, r)"
        and g: "grows mods (insert m visited, result) new (v, r)"
      by (metis surj_pair)
    have res: "dfs mods m (visited, result) = Inr (v, r @ [m])"
      using False info inner by simp
    have "grows mods (visited, result) (new @ [m]) (v, r @ [m])"
      using g False 1(2) by (auto simp: grows_def)
    moreover have "m \<in> v" using g by (auto simp: grows_def)
    ultimately show ?thesis using res by fastforce
  qed
next
  case (2 mods st)
  show ?case using grows_refl by fastforce
next
  case (3 mods dep deps st)
  show ?case
  proof (cases "dep \<in> fst ` set mods")
    case True
    from 3(1) [OF True True] obtain new1 st1
      where first: "dfs mods dep st = Inr st1" and g1: "grows mods st new1 st1"
        and in1: "dep \<in> fst st1"
      by blast
    from 3(2) [OF True first] obtain new2 st2
      where rest: "visit_deps mods deps st1 = Inr st2" and g2: "grows mods st1 new2 st2"
        and in2: "set deps \<inter> fst ` set mods \<subseteq> fst st2"
      by blast
    have res: "visit_deps mods (dep # deps) st = Inr st2"
      using True first rest by simp
    have "fst st1 \<subseteq> fst st2" using g2 by (auto simp: grows_def)
    with in1 in2 have "set (dep # deps) \<inter> fst ` set mods \<subseteq> fst st2" by auto
    with res grows_trans [OF g1 g2] show ?thesis by blast
  next
    case False
    from 3(3) [OF False] obtain new st'
      where rest: "visit_deps mods deps st = Inr st'" and g: "grows mods st new st'"
        and inc: "set deps \<inter> fst ` set mods \<subseteq> fst st'"
      by blast
    have "visit_deps mods (dep # deps) st = Inr st'" using False rest by simp
    moreover from inc False have "set (dep # deps) \<inter> fst ` set mods \<subseteq> fst st'" by auto
    ultimately show ?thesis using g by blast
  qed
qed

lemma visit_roots_grows:
  "fst ` set items \<subseteq> fst ` set mods \<Longrightarrow>
     \<exists>new st'. visit_roots mods items st = Inr st' \<and> grows mods st new st'"
proof (induction items arbitrary: st)
  case Nil
  show ?case using grows_refl by fastforce
next
  case (Cons item items)
  obtain nm module where item: "item = (nm, module)" by (cases item)
  from Cons.prems have sub: "fst ` set items \<subseteq> fst ` set mods" and nm: "nm \<in> fst ` set mods"
    by (auto simp: item)
  show ?case
  proof (cases "dependents module = []")
    case True
    from dfs_grows(1) [OF nm] obtain new1 st1
      where first: "dfs mods nm st = Inr st1" and g1: "grows mods st new1 st1" by blast
    from Cons.IH [OF sub] obtain new2 st2
      where rest: "visit_roots mods items st1 = Inr st2" and g2: "grows mods st1 new2 st2" by blast
    have "visit_roots mods (item # items) st = Inr st2"
      using True first rest by (simp add: item)
    with grows_trans [OF g1 g2] show ?thesis by blast
  next
    case False
    from Cons.IH [OF sub] obtain new st'
      where rest: "visit_roots mods items st = Inr st'" and g: "grows mods st new st'" by blast
    have "visit_roots mods (item # items) st = Inr st'"
      using False rest by (simp add: item)
    with g show ?thesis by blast
  qed
qed

lemma visit_all_grows:
  "set names \<subseteq> fst ` set mods \<Longrightarrow>
     \<exists>new st'. visit_all mods names st = Inr st' \<and> grows mods st new st' \<and> set names \<subseteq> fst st'"
proof (induction names arbitrary: st)
  case Nil
  show ?case using grows_refl by fastforce
next
  case (Cons nm names)
  then have sub: "set names \<subseteq> fst ` set mods" and nm: "nm \<in> fst ` set mods" by auto
  from dfs_grows(1) [OF nm] obtain new1 st1
    where first: "dfs mods nm st = Inr st1" and g1: "grows mods st new1 st1"
      and in1: "nm \<in> fst st1" by blast
  from Cons.IH [OF sub] obtain new2 st2
    where rest: "visit_all mods names st1 = Inr st2" and g2: "grows mods st1 new2 st2"
      and in2: "set names \<subseteq> fst st2" by blast
  have res: "visit_all mods (nm # names) st = Inr st2" using first rest by simp
  have "fst st1 \<subseteq> fst st2" using g2 by (auto simp: grows_def)
  with in1 in2 have "set (nm # names) \<subseteq> fst st2" by auto
  with res grows_trans [OF g1 g2] show ?case by blast
qed

lemma traverse_total:
  "\<exists>result. traverse mods = Inr (fst ` set mods, result) \<and> distinct result
     \<and> set result = fst ` set mods"
proof -
  from visit_roots_grows [of mods mods "({}, [])"] obtain new1 st1
    where r1: "visit_roots mods mods ({}, []) = Inr st1" and g1: "grows mods ({}, []) new1 st1"
    by blast
  from visit_all_grows [of "map fst mods" mods st1] obtain new2 st2
    where r2: "visit_all mods (map fst mods) st1 = Inr st2" and g2: "grows mods st1 new2 st2"
      and all: "set (map fst mods) \<subseteq> fst st2"
    by auto
  from grows_trans [OF g1 g2] have g: "grows mods ({}, []) (new1 @ new2) st2" .
  then have st2: "st2 = (set (new1 @ new2), new1 @ new2)" and d: "distinct (new1 @ new2)"
    and sub: "set (new1 @ new2) \<subseteq> fst ` set mods"
    by (simp_all add: grows_def)
  from all st2 sub have eq: "set (new1 @ new2) = fst ` set mods" by auto
  have "traverse mods = Inr st2" using r1 r2 by (simp add: traverse_def)
  with st2 eq d show ?thesis by metis
qed

text \<open>
  On a stack without bound the search returns, for every Fact Store, a sequence holding
  every module name exactly once, whatever the \<^verbatim>\<open>dependents\<close> lists hold and whether or
  not the dependencies form cycles; no \<^verbatim>\<open>KeyError\<close> is raised.
\<close>

theorem get_migration_order_permutation:
  "\<exists>order. get_migration_order mods = Inr order \<and> distinct order \<and> set order = fst ` set mods"
proof -
  from traverse_total obtain result
    where "traverse mods = Inr (fst ` set mods, result)" "distinct result"
      "set result = fst ` set mods" by blast
  then show ?thesis by (simp add: get_migration_order_def)
qed

theorem get_migration_order_permutation_witness:
  "get_migration_order cyclic_modules = Inr [''A'', ''B''] \<and>
   (\<exists>order. get_migration_order cyclic_modules = Inr order \<and> distinct order \<and>
      set order = fst ` set cyclic_modules)"
  using get_migration_order_permutation [of cyclic_modules]
  by (simp add: get_migration_order_def traverse_def cyclic_modules_def add_module_def)

subsection \<open>The recursion limit\<close>

text \<open>
  A call of \<^verbatim>\<open>dfs\<close> that does work marks a module not marked before, so the calls nest no
  deeper than there are modules, plus one call that finds its module marked. With more
  frames than modules the bounded search is the search on the unbounded stack.
\<close>

lemma unvisited_less:
  assumes "m \<in> fst ` set mods" and "m \<notin> V" and "card (fst ` set mods - V) < Suc n"
  shows "card (fst ` set mods - insert m V) < n"
proof -
  have "fst ` set mods - insert m V \<subset> fst ` set mods - V" using assms(1,2) by auto
  then have "card (fst ` set mods - insert m V) < card (fst ` set mods - V)"
    by (intro psubset_card_mono) auto
  with assms(3) show ?thesis by simp
qed

lemma grows_unvisited:
  assumes "grows mods st new st'"
  shows "card (fst ` set mods - fst st') \<le> card (fst ` set mods - fst st)"
proof -
  from assms have "fst st \<subseteq> fst st'" by (auto simp: grows_def)
  then show ?thesis by (intro card_mono) auto
qed

lemma dfs_within_enough:
  "card (fst ` set mods - fst st) < frames \<Longrightarrow> dfs_within frames mods m st = dfs mods m st"
  "card (fst ` set mods - fst st) < frames \<Longrightarrow>
     visit_deps_within frames mods ds st = visit_deps mods ds st"
proof (induction mods m st and mods ds st arbitrary: frames and frames rule: dfs_visit_deps.induct)
  case (1 mods m visited result)
  from "1.prems" obtain n where frames: "frames = Suc n" by (cases frames) auto
  show ?case
  proof (cases "m \<in> visited")
    case True
    then show ?thesis by (simp add: frames)
  next
    case False
    show ?thesis
    proof (cases "map_of mods m")
      case None
      with False show ?thesis by (simp add: frames)
    next
      case (Some info)
      then have "m \<in> fst ` set mods" by (metis domI dom_map_of_conv_image_fst)
      from unvisited_less [OF this False] "1.prems"
      have "card (fst ` set mods - fst (insert m visited, result)) < n" by (simp add: frames)
      from "1.IH" [OF False Some this] False Some show ?thesis by (simp add: frames)
    qed
  qed
next
  case (2 mods st)
  show ?case by simp
next
  case (3 mods dep deps st)
  show ?case
  proof (cases "dep \<in> fst ` set mods")
    case True
    have first: "dfs_within frames mods dep st = dfs mods dep st"
      using "3.IH"(1) [OF True "3.prems"] .
    from dfs_grows(1) [OF True, of st] obtain new st1
      where r: "dfs mods dep st = Inr st1" and g: "grows mods st new st1" by blast
    from grows_unvisited [OF g] "3.prems"
    have "card (fst ` set mods - fst st1) < frames" by simp
    from "3.IH"(2) [OF True r this] first r True show ?thesis by simp
  next
    case False
    with "3.IH"(3) [OF False "3.prems"] show ?thesis by simp
  qed
qed

lemma visit_roots_within_enough:
  "fst ` set items \<subseteq> fst ` set mods \<Longrightarrow> card (fst ` set mods - fst st) < frames \<Longrightarrow>
     visit_roots_within frames mods items st = visit_roots mods items st"
proof (induction items arbitrary: st)
  case Nil
  show ?case by simp
next
  case (Cons item items)
  obtain nm module where item: "item = (nm, module)" by (cases item)
  from Cons.prems(1) have sub: "fst ` set items \<subseteq> fst ` set mods" and nm: "nm \<in> fst ` set mods"
    by (auto simp: item)
  show ?case
  proof (cases "dependents module = []")
    case True
    from dfs_grows(1) [OF nm, of st] obtain new st1
      where r: "dfs mods nm st = Inr st1" and g: "grows mods st new st1" by blast
    from grows_unvisited [OF g] Cons.prems(2)
    have "card (fst ` set mods - fst st1) < frames" by simp
    from Cons.IH [OF sub this] dfs_within_enough(1) [OF Cons.prems(2), of nm] r True
    show ?thesis by (simp add: item)
  next
    case False
    with Cons.IH [OF sub Cons.prems(2)] show ?thesis by (simp add: item)
  qed
qed

lemma visit_all_within_enough:
  "set names \<subseteq> fst ` set mods \<Longrightarrow> card (fst ` set mods - fst st) < frames \<Longrightarrow>
     visit_all_within frames mods names st = visit_all mods names st"
proof (induction names arbitrary: st)
  case Nil
  show ?case by simp
next
  case (Cons nm names)
  from Cons.prems(1) have sub: "set names \<subseteq> fst ` set mods" and nm: "nm \<in> fst ` set mods"
    by auto
  from dfs_grows(1) [OF nm, of st] obtain new st1
    where r: "dfs mods nm st = Inr st1" and g: "grows mods st new st1" by blast
  from grows_unvisited [OF g] Cons.prems(2)
  have "card (fst ` set mods - fst st1) < frames" by simp
  from Cons.IH [OF sub this] dfs_within_enough(1) [OF Cons.prems(2), of nm] r
  show ?case by simp
qed

lemma traverse_within_enough:
  assumes "length mods < frames"
  shows "traverse_within frames mods = traverse mods"
proof -
  have "card (fst ` set mods) \<le> length mods"
    by (metis card_length length_map list.set_map)
  with assms have c: "card (fst ` set mods - fst ({}::string set, []::string list)) < frames"
    by simp
  have r1: "visit_roots_within frames mods mods ({}, []) = visit_roots mods mods ({}, [])"
    using c by (intro visit_roots_within_enough) auto
  from visit_roots_grows [of mods mods "({}, [])"] obtain new st1
    where v: "visit_roots mods mods ({}, []) = Inr st1" and g: "grows mods ({}, []) new st1"
    by blast
  from grows_unvisited [OF g] c have "card (fst ` set mods - fst st1) < frames" by simp
  then have "visit_all_within frames mods (map fst mods) st1 = visit_all mods (map fst mods) st1"
    by (intro visit_all_within_enough) auto
  with r1 v show ?thesis by (simp add: traverse_within_def traverse_def)
qed

lemma get_migration_order_within_enough:
  "length mods < frames \<Longrightarrow> get_migration_order_within frames mods = get_migration_order mods"
  by (simp add: get_migration_order_within_def get_migration_order_def traverse_within_enough)











subsection \<open>Fact stores without dependency edges\<close>

lemma dfs_leaf:
  "map_of mods m = Some info \<Longrightarrow> dependencies info = [] \<Longrightarrow>
     dfs mods m (V, R) = Inr (if m \<in> V then (V, R) else (insert m V, R @ [m]))"
  by simp

lemma lookup_leaf:
  assumes "\<forall>item \<in> set mods. dependencies (snd item) = []" and "m \<in> fst ` set mods"
  shows "\<exists>info. map_of mods m = Some info \<and> dependencies info = []"
proof -
  from assms(2) obtain info where info: "map_of mods m = Some info"
    by (metis domD dom_map_of_conv_image_fst)
  then have "(m, info) \<in> set mods" by (rule map_of_SomeD)
  with assms(1) have "dependencies info = []" by force
  with info show ?thesis by blast
qed

lemma visit_roots_leaves:
  assumes leaves: "\<forall>item \<in> set mods. dependencies (snd item) = []"
  shows "fst ` set items \<subseteq> fst ` set mods \<Longrightarrow> distinct (map fst items) \<Longrightarrow>
     fst ` set items \<inter> V = {} \<Longrightarrow>
     visit_roots mods items (V, R) =
       Inr (V \<union> set (map fst (filter (\<lambda>item. dependents (snd item) = []) items)),
            R @ map fst (filter (\<lambda>item. dependents (snd item) = []) items))"
proof (induction items arbitrary: V R)
  case Nil
  show ?case by simp
next
  case (Cons item items)
  obtain nm module where item: "item = (nm, module)" by (cases item)
  from Cons.prems have sub: "fst ` set items \<subseteq> fst ` set mods" and nm: "nm \<in> fst ` set mods"
    and dist: "distinct (map fst items)" and fresh: "nm \<notin> fst ` set items" and nmV: "nm \<notin> V"
    and disj: "fst ` set items \<inter> V = {}"
    by (auto simp: item)
  show ?case
  proof (cases "dependents module = []")
    case True
    from lookup_leaf [OF leaves nm] obtain info
      where "map_of mods nm = Some info" "dependencies info = []" by blast
    then have first: "dfs mods nm (V, R) = Inr (insert nm V, R @ [nm])"
      using nmV by (simp add: dfs_leaf)
    from disj fresh have "fst ` set items \<inter> insert nm V = {}" by auto
    from Cons.IH [OF sub dist this, of "R @ [nm]"] first True
    show ?thesis by (simp add: item)
  next
    case False
    from Cons.IH [OF sub dist disj, of R] False
    show ?thesis by (simp add: item)
  qed
qed

lemma visit_all_leaves:
  assumes leaves: "\<forall>item \<in> set mods. dependencies (snd item) = []"
  shows "set names \<subseteq> fst ` set mods \<Longrightarrow> distinct names \<Longrightarrow>
     visit_all mods names (V, R) = Inr (V \<union> set names, R @ filter (\<lambda>n. n \<notin> V) names)"
proof (induction names arbitrary: V R)
  case Nil
  show ?case by simp
next
  case (Cons nm names)
  then have sub: "set names \<subseteq> fst ` set mods" and nm: "nm \<in> fst ` set mods"
    and dist: "distinct names" and fresh: "nm \<notin> set names"
    by auto
  from lookup_leaf [OF leaves nm] obtain info
    where info: "map_of mods nm = Some info" "dependencies info = []" by blast
  show ?case
  proof (cases "nm \<in> V")
    case True
    with info have "dfs mods nm (V, R) = Inr (V, R)" by (simp add: dfs_leaf)
    with Cons.IH [OF sub dist, of V R] True show ?thesis by auto
  next
    case False
    with info have first: "dfs mods nm (V, R) = Inr (insert nm V, R @ [nm])"
      by (simp add: dfs_leaf)
    from fresh have "filter (\<lambda>n. n \<notin> insert nm V) names = filter (\<lambda>n. n \<notin> V) names"
      by (intro filter_cong) auto
    with Cons.IH [OF sub dist, of "insert nm V" "R @ [nm]"] first False
    show ?thesis by simp
  qed
qed

lemma non_roots_filter:
  assumes "distinct (map fst mods)"
  shows "filter (\<lambda>n. n \<notin> set (map fst (filter P mods))) (map fst mods)
           = map fst (filter (\<lambda>x. \<not> P x) mods)"
proof -
  have inj: "inj_on fst (set mods)" using assms by (simp add: distinct_map)
  have "\<And>x. x \<in> set mods \<Longrightarrow> (fst x \<notin> set (map fst (filter P mods))) = (\<not> P x)"
  proof -
    fix x assume x: "x \<in> set mods"
    show "(fst x \<notin> set (map fst (filter P mods))) = (\<not> P x)"
    proof
      assume "fst x \<notin> set (map fst (filter P mods))"
      with x show "\<not> P x" by force
    next
      assume np: "\<not> P x"
      show "fst x \<notin> set (map fst (filter P mods))"
      proof
        assume "fst x \<in> set (map fst (filter P mods))"
        then obtain y where y: "y \<in> set mods" "P y" "fst y = fst x" by auto
        with inj x have "y = x" by (auto dest: inj_onD)
        with y np show False by simp
      qed
    qed
  qed
  then have "filter ((\<lambda>n. n \<notin> set (map fst (filter P mods))) \<circ> fst) mods
               = filter (\<lambda>x. \<not> P x) mods"
    by (intro filter_cong) auto
  then show ?thesis by (simp add: filter_map)
qed

text \<open>
  Claim C3, as amended. For every Fact Store in which every module's \<^verbatim>\<open>dependencies\<close>
  list is empty, \<^verbatim>\<open>get_migration_order\<close> returns every module exactly once, and the
  traversal is seeded over the modules with an empty \<^verbatim>\<open>dependents\<close> list in the order the
  dict holds them (its insertion order, not the sorted order of the names), followed by
  the other modules, again in dict order: that is the list \<^verbatim>\<open>result\<close> when both loops are
  done.
\<close>

theorem no_dependencies_order:
  assumes "distinct (map fst mods)"
    and "\<forall>item \<in> set mods. dependencies (snd item) = []"
  shows "traverse mods =
           Inr (fst ` set mods,
                map fst (filter (\<lambda>item. dependents (snd item) = []) mods) @
                map fst (filter (\<lambda>item. dependents (snd item) \<noteq> []) mods))
         \<and> (\<exists>order. get_migration_order mods = Inr order \<and> distinct order \<and>
               set order = fst ` set mods)"
proof -
  let ?roots = "map fst (filter (\<lambda>item. dependents (snd item) = []) mods)"
  have r1: "visit_roots mods mods ({}, []) = Inr ({} \<union> set ?roots, [] @ ?roots)"
    using assms by (intro visit_roots_leaves) auto
  have r2: "visit_all mods (map fst mods) (set ?roots, ?roots)
              = Inr (set ?roots \<union> set (map fst mods),
                     ?roots @ filter (\<lambda>n. n \<notin> set ?roots) (map fst mods))"
    using assms by (intro visit_all_leaves) auto
  have rest: "filter (\<lambda>n. n \<notin> set ?roots) (map fst mods)
                = map fst (filter (\<lambda>item. dependents (snd item) \<noteq> []) mods)"
    using assms(1) by (rule non_roots_filter)
  have vis: "set ?roots \<union> set (map fst mods) = fst ` set mods" by auto
  have t: "traverse mods =
           Inr (fst ` set mods,
                ?roots @ map fst (filter (\<lambda>item. dependents (snd item) \<noteq> []) mods))"
    unfolding traverse_def r1 using r2 rest vis by simp
  from traverse_total [of mods] obtain result
    where tt: "traverse mods = Inr (fst ` set mods, result)" "distinct result"
      "set result = fst ` set mods" by blast
  then have "get_migration_order mods = Inr (rev result)"
    by (simp add: get_migration_order_def)
  moreover have "distinct (rev result)" "set (rev result) = fst ` set mods"
    using tt by simp_all
  ultimately show ?thesis using t by blast
qed

theorem no_dependencies_order_witness:
  "distinct (map fst unsorted_modules) \<and>
   map (dependencies \<circ> snd) unsorted_modules = [[], [], []] \<and>
   traverse unsorted_modules = Inr ({''A'', ''B'', ''C''}, [''B'', ''A'', ''C'']) \<and>
   (\<exists>order. get_migration_order unsorted_modules = Inr order \<and> distinct order \<and>
      set order = fst ` set unsorted_modules)"
proof -
  have d: "distinct (map fst unsorted_modules)"
    by (simp add: unsorted_modules_def add_module_def)
  have l: "\<forall>item \<in> set unsorted_modules. dependencies (snd item) = []"
    by (simp add: unsorted_modules_def add_module_def)
  from no_dependencies_order [OF d l] d show ?thesis
    by (simp add: unsorted_modules_def add_module_def insert_commute)
qed

text \<open>
  The claim as written asks for the sorted order of the names. Three modules without
  dependencies or dependents, inserted as B, A, C, are visited as B, A, C and returned as
  C, A, B: neither list is sorted.
\<close>

theorem sorted_order_counterexample:
  "map (dependencies \<circ> snd) unsorted_modules = [[], [], []] \<and>
   map (dependents \<circ> snd) unsorted_modules = [[], [], []] \<and>
   traverse unsorted_modules = Inr ({''A'', ''B'', ''C''}, [''B'', ''A'', ''C'']) \<and>
   \<not> sorted [''B'', ''A'', ''C''] \<and>
   get_migration_order unsorted_modules = Inr [''C'', ''A'', ''B''] \<and>
   \<not> sorted [''C'', ''A'', ''B'']"
  by (simp add: get_migration_order_def traverse_def unsorted_modules_def add_module_def
      insert_commute)

subsection \<open>Direction of the returned order\<close>

text \<open>
  Claim C1 on the chain X, Y, Z (Y depends on X, Z on Y): the claim places X before Y and
  Y before Z. The search appends a module after its dependencies, so \<^verbatim>\<open>result\<close> is
  X, Y, Z; the method returns \<^verbatim>\<open>reversed(result)\<close>, which is Z, Y, X.
\<close>

theorem chain_order_reversed:
  "traverse chain_modules = Inr ({''X'', ''Y'', ''Z''}, [''X'', ''Y'', ''Z'']) \<and>
   get_migration_order chain_modules = Inr [''Z'', ''Y'', ''X'']"
  by (simp add: get_migration_order_def traverse_def chain_modules_def add_module_def
      insert_commute)

text \<open>The same list is returned under the recursion limit, whenever it leaves \<^verbatim>\<open>dfs\<close> more
  than three frames.\<close>

lemma chain_order_reversed_within:
  assumes "3 < frames"
  shows "get_migration_order_within frames chain_modules = Inr [''Z'', ''Y'', ''X'']"
proof -
  have "length chain_modules < frames"
    using assms by (simp add: chain_modules_def add_module_def)
  then have "get_migration_order_within frames chain_modules = get_migration_order chain_modules"
    by (rule get_migration_order_within_enough)
  also have "\<dots> = Inr [''Z'', ''Y'', ''X'']"
    by (simp add: get_migration_order_def traverse_def chain_modules_def add_module_def)
  finally show ?thesis .
qed

lemma rankedD:
  "ranked rank mods \<Longrightarrow> map_of mods m = Some info \<Longrightarrow> d \<in> set (dependencies info) \<Longrightarrow>
     d \<in> fst ` set mods \<Longrightarrow> rank d < rank m"
  unfolding ranked_def by blast

lemma grows_pending:
  assumes "grows mods st new st'" and "set (snd st) \<subseteq> fst st"
  shows "fst st' - set (snd st') = fst st - set (snd st)" and "set (snd st') \<subseteq> fst st'"
  using assms by (auto simp: grows_def)

lemma dfs_dependents_first:
  "ranked rank mods \<Longrightarrow> m \<in> fst ` set mods \<Longrightarrow> set (snd st) \<subseteq> fst st \<Longrightarrow>
      (\<forall>x \<in> fst st - set (snd st). rank m < rank x) \<Longrightarrow>
      dependents_first mods (rev (snd st)) \<Longrightarrow> dfs mods m st = Inr st' \<Longrightarrow>
      dependents_first mods (rev (snd st'))"
  "ranked rank mods \<Longrightarrow> set (snd st) \<subseteq> fst st \<Longrightarrow>
      (\<forall>d \<in> set ds \<inter> fst ` set mods. \<forall>x \<in> fst st - set (snd st). rank d < rank x) \<Longrightarrow>
      dependents_first mods (rev (snd st)) \<Longrightarrow> visit_deps mods ds st = Inr st' \<Longrightarrow>
      dependents_first mods (rev (snd st'))"
proof (induction mods m st and mods ds st arbitrary: st' and st' rule: dfs_visit_deps.induct)
  case (1 mods m visited result)
  note acyc = "1.prems"(1)
  show ?case
  proof (cases "m \<in> visited")
    case True
    with "1.prems"(5,6) show ?thesis by auto
  next
    case False
    from "1.prems"(2) obtain info where info: "map_of mods m = Some info"
      by (metis domD dom_map_of_conv_image_fst)
    from dfs_grows(2) [of mods "dependencies info" "(insert m visited, result)"]
    obtain new v r
      where inner: "visit_deps mods (dependencies info) (insert m visited, result) = Inr (v, r)"
        and g: "grows mods (insert m visited, result) new (v, r)"
        and seen: "set (dependencies info) \<inter> fst ` set mods \<subseteq> v"
      by (metis fst_conv surj_pair)
    have res: "st' = (v, r @ [m])"
      using "1.prems"(6) False info inner by simp
    have sub: "set (snd (insert m visited, result)) \<subseteq> fst (insert m visited, result)"
      using "1.prems"(3) by auto
    have below: "\<forall>d \<in> set (dependencies info) \<inter> fst ` set mods.
        \<forall>x \<in> fst (insert m visited, result) - set (snd (insert m visited, result)). rank d < rank x"
    proof (intro ballI)
      fix d x
      assume d: "d \<in> set (dependencies info) \<inter> fst ` set mods"
        and x: "x \<in> fst (insert m visited, result) - set (snd (insert m visited, result))"
      from d have dm: "rank d < rank m" using rankedD [OF acyc info] by blast
      show "rank d < rank x"
      proof (cases "x = m")
        case True
        with dm show ?thesis by simp
      next
        case False
        with x have "x \<in> visited - set result" by auto
        with "1.prems"(4) have "rank m < rank x" by auto
        with dm show ?thesis by simp
      qed
    qed
    have old: "dependents_first mods (rev (snd (insert m visited, result)))"
      using "1.prems"(5) by simp
    from "1.IH" [OF False info acyc sub below old inner]
    have inner_ok: "dependents_first mods (rev r)" by simp
    have "set (tracked_dependencies mods m) \<subseteq> set r"
    proof
      fix d assume "d \<in> set (tracked_dependencies mods m)"
      then have d: "d \<in> set (dependencies info)" "d \<in> fst ` set mods"
        by (auto simp: tracked_dependencies_def info)
      then have dm: "rank d < rank m" using rankedD [OF acyc info] by blast
      from d seen have "d \<in> v" by auto
      with g have "d = m \<or> d \<in> visited \<or> d \<in> set new" by (auto simp: grows_def)
      moreover from dm have "d \<noteq> m" by auto
      moreover have "d \<in> set result" if "d \<in> visited"
      proof (rule ccontr)
        assume "d \<notin> set result"
        with that "1.prems"(4) have "rank m < rank d" by auto
        with dm show False by simp
      qed
      moreover from g have "set r = set result \<union> set new" by (auto simp: grows_def)
      ultimately show "d \<in> set r" by auto
    qed
    with inner_ok res show ?thesis by simp
  qed
next
  case (2 mods st)
  then show ?case by simp
next
  case (3 mods dep deps st)
  note acyc = "3.prems"(1)
  show ?case
  proof (cases "dep \<in> fst ` set mods")
    case True
    from dfs_grows(1) [OF True, of st] obtain new1 st1
      where first: "dfs mods dep st = Inr st1" and g1: "grows mods st new1 st1"
      by blast
    from "3.prems"(5) True first have rest: "visit_deps mods deps st1 = Inr st'" by simp
    from "3.prems"(3) True have below1: "\<forall>x \<in> fst st - set (snd st). rank dep < rank x"
      by auto
    from "3.IH"(1) [OF True acyc True "3.prems"(2) below1 "3.prems"(4) first]
    have ok1: "dependents_first mods (rev (snd st1))" .
    from grows_pending [OF g1 "3.prems"(2)]
    have pend: "fst st1 - set (snd st1) = fst st - set (snd st)"
      and sub1: "set (snd st1) \<subseteq> fst st1" .
    from "3.prems"(3) pend
    have below2: "\<forall>d \<in> set deps \<inter> fst ` set mods. \<forall>x \<in> fst st1 - set (snd st1). rank d < rank x"
      by auto
    from "3.IH"(2) [OF True first acyc sub1 below2 ok1 rest] show ?thesis .
  next
    case False
    from "3.prems"(5) False have rest: "visit_deps mods deps st = Inr st'" by simp
    from "3.prems"(3)
    have below: "\<forall>d \<in> set deps \<inter> fst ` set mods. \<forall>x \<in> fst st - set (snd st). rank d < rank x"
      by auto
    from "3.IH"(3) [OF False acyc "3.prems"(2) below "3.prems"(4) rest] show ?thesis .
  qed
qed


lemma grows_settled:
  assumes "grows mods st new st'" and "fst st = set (snd st)"
  shows "fst st' = set (snd st')"
  using assms by (auto simp: grows_def)

lemma visit_roots_dependents_first:
  "ranked rank mods \<Longrightarrow> fst ` set items \<subseteq> fst ` set mods \<Longrightarrow> fst st = set (snd st) \<Longrightarrow>
     dependents_first mods (rev (snd st)) \<Longrightarrow> visit_roots mods items st = Inr st' \<Longrightarrow>
     dependents_first mods (rev (snd st')) \<and> fst st' = set (snd st')"
proof (induction items arbitrary: st)
  case Nil
  then show ?case by simp
next
  case (Cons item items)
  obtain nm module where item: "item = (nm, module)" by (cases item)
  from Cons.prems(2) have sub: "fst ` set items \<subseteq> fst ` set mods" and nm: "nm \<in> fst ` set mods"
    by (auto simp: item)
  show ?case
  proof (cases "dependents module = []")
    case True
    from dfs_grows(1) [OF nm, of st] obtain new1 st1
      where first: "dfs mods nm st = Inr st1" and g1: "grows mods st new1 st1" by blast
    from Cons.prems(5) True first have rest: "visit_roots mods items st1 = Inr st'"
      by (simp add: item)
    from Cons.prems(3) have sub0: "set (snd st) \<subseteq> fst st"
      and pend: "\<forall>x \<in> fst st - set (snd st). rank nm < rank x" by auto
    from dfs_dependents_first(1) [OF Cons.prems(1) nm sub0 pend Cons.prems(4) first]
    have ok1: "dependents_first mods (rev (snd st1))" .
    from Cons.IH [OF Cons.prems(1) sub grows_settled [OF g1 Cons.prems(3)] ok1 rest]
    show ?thesis .
  next
    case False
    from Cons.prems(5) False have rest: "visit_roots mods items st = Inr st'"
      by (simp add: item)
    from Cons.IH [OF Cons.prems(1) sub Cons.prems(3,4) rest] show ?thesis .
  qed
qed

lemma visit_all_dependents_first:
  "ranked rank mods \<Longrightarrow> set names \<subseteq> fst ` set mods \<Longrightarrow> fst st = set (snd st) \<Longrightarrow>
     dependents_first mods (rev (snd st)) \<Longrightarrow> visit_all mods names st = Inr st' \<Longrightarrow>
     dependents_first mods (rev (snd st'))"
proof (induction names arbitrary: st)
  case Nil
  then show ?case by simp
next
  case (Cons nm names)
  from Cons.prems(2) have sub: "set names \<subseteq> fst ` set mods" and nm: "nm \<in> fst ` set mods"
    by auto
  from dfs_grows(1) [OF nm, of st] obtain new1 st1
    where first: "dfs mods nm st = Inr st1" and g1: "grows mods st new1 st1" by blast
  from Cons.prems(5) first have rest: "visit_all mods names st1 = Inr st'" by simp
  from Cons.prems(3) have sub0: "set (snd st) \<subseteq> fst st"
    and pend: "\<forall>x \<in> fst st - set (snd st). rank nm < rank x" by auto
  from dfs_dependents_first(1) [OF Cons.prems(1) nm sub0 pend Cons.prems(4) first]
  have ok1: "dependents_first mods (rev (snd st1))" .
  from Cons.IH [OF Cons.prems(1) sub grows_settled [OF g1 Cons.prems(3)] ok1 rest]
  show ?case .
qed

lemma dependents_first_split:
  "dependents_first mods (us @ m # vs) \<Longrightarrow> set (tracked_dependencies mods m) \<subseteq> set vs"
  by (induction us) auto

text \<open>
  The reversal is systematic. Whenever the tracked dependencies are acyclic, the list
  \<^verbatim>\<open>result\<close> holds every dependency before the module that lists it, and the returned
  list, its reverse, holds every module strictly before each of its tracked dependencies.
\<close>


theorem acyclic_order_dependents_first:
  assumes "ranked rank mods"
    and "map_of mods m = Some info" and "d \<in> set (dependencies info)" and "d \<in> fst ` set mods"
  shows "\<exists>us vs. get_migration_order mods = Inr (us @ m # vs) \<and> d \<in> set vs \<and> d \<notin> set us"
proof -
  from traverse_total [of mods] obtain result
    where t: "traverse mods = Inr (fst ` set mods, result)" and dist: "distinct result"
      and all: "set result = fst ` set mods" by blast
  from visit_roots_grows [of mods mods "({}, [])"] obtain new1 st1
    where r1: "visit_roots mods mods ({}, []) = Inr st1" by blast
  with t have r2: "visit_all mods (map fst mods) st1 = Inr (fst ` set mods, result)"
    by (simp add: traverse_def)
  from visit_roots_dependents_first [OF assms(1) _ _ _ r1]
  have ok1: "dependents_first mods (rev (snd st1))" and settled: "fst st1 = set (snd st1)"
    by simp_all
  from visit_all_dependents_first [OF assms(1) _ settled ok1 r2]
  have ok: "dependents_first mods (rev result)" by simp
  from assms(2) have "m \<in> fst ` set mods"
    by (metis domI dom_map_of_conv_image_fst)
  with all have "m \<in> set (rev result)" by simp
  then obtain us vs where split: "rev result = us @ m # vs"
    by (auto simp: in_set_conv_decomp)
  from assms(2,3,4) have "d \<in> set (tracked_dependencies mods m)"
    by (simp add: tracked_dependencies_def)
  with dependents_first_split [of mods us m vs] ok split have dv: "d \<in> set vs" by auto
  from dist have "distinct (us @ m # vs)" using split by (metis distinct_rev)
  with dv have "d \<notin> set us" by auto
  moreover from t split have "get_migration_order mods = Inr (us @ m # vs)"
    by (simp add: get_migration_order_def)
  ultimately show ?thesis using dv by blast
qed

theorem acyclic_order_dependents_first_witness:
  "ranked chain_rank chain_modules \<and>
   (\<exists>us vs. get_migration_order chain_modules = Inr (us @ ''Y'' # vs) \<and>
      ''X'' \<in> set vs \<and> ''X'' \<notin> set us)"
proof -
  have r: "ranked chain_rank chain_modules"
    by (auto simp: ranked_def chain_modules_def add_module_def chain_rank_def split: if_splits)
  have y: "map_of chain_modules ''Y'' =
     Some \<lparr>name = ''Y'', status = NOT_STARTED, dependencies = [''X''], dependents = [''Z''],
           migration_date = None, blocking_issues = [], notes_str = []\<rparr>"
    by (simp add: chain_modules_def add_module_def)
  have x: "''X'' \<in> fst ` set chain_modules"
    by (simp add: chain_modules_def add_module_def)
  from acyclic_order_dependents_first [OF r y _ x] r show ?thesis by simp
qed

text \<open>
  On the tracker's own default modules the returned order ends with \<^verbatim>\<open>UmbraErrors\<close>, the
  module without dependencies that the defaults record as already migrated, and lists
  \<^verbatim>\<open>SecurityInterfaces\<close> before \<^verbatim>\<open>UserDefaults\<close>, although its note reads ``Depends on
  UserDefaults migration''.
\<close>

theorem default_modules_order:
  "get_migration_order (initialize_default_modules today []) =
     Inr [''SecurityTypes'', ''FileSystemTypes'', ''Scheduling'', ''Notification'',
          ''SecurityInterfaces'', ''UserDefaults'', ''CoreDTOs'', ''UmbraErrors'']"
  by (simp add: get_migration_order_def traverse_def initialize_default_modules_def
      add_module_def)

section \<open>Properties of persistence\<close>

lemma below_ten:
  "(m::nat) < 10 \<Longrightarrow>
     m = 0 \<or> m = 1 \<or> m = 2 \<or> m = 3 \<or> m = 4 \<or> m = 5 \<or> m = 6 \<or> m = 7 \<or> m = 8 \<or> m = 9"
  by arith

lemma digit_value_char: "digit_value (digit_char n) = Some (n mod 10)"
proof -
  define m where "m = n mod 10"
  have "m < 10" by (simp add: m_def)
  from below_ten [OF this] have "digit_value (''0123456789'' ! m) = Some m"
    by (elim disjE) (simp_all add: digit_value_def)
  then show ?thesis by (simp add: digit_char_def m_def)
qed

lemma number_append:
  "number acc (xs @ [c]) =
     (case number acc xs of None \<Rightarrow> None
      | Some v \<Rightarrow> (case digit_value c of None \<Rightarrow> None | Some u \<Rightarrow> Some (10 * v + u)))"
  by (induction xs arbitrary: acc) (auto split: option.splits)

lemma number_decimal: "number 0 (decimal w n) = Some (n mod 10 ^ w)"
proof (induction w arbitrary: n)
  case 0
  show ?case by simp
next
  case (Suc w)
  have "10 * (n div 10 mod 10 ^ w) + n mod 10 = n mod (10 * 10 ^ w)"
    by (simp add: mod_mult2_eq add.commute)
  with Suc show ?case
    by (simp add: number_append digit_value_char)
qed

lemma length_decimal: "length (decimal w n) = w"
  by (induction w arbitrary: n) auto

lemma date_eta: "\<lparr>year = year d, month = month d, day = day d\<rparr> = d"
  by (cases d) simp

lemma fromisoformat_isoformat:
  assumes "valid_date d"
  shows "fromisoformat (isoformat d) = Inr d"
proof -
  let ?y = "decimal 4 (year d)" and ?m = "decimal 2 (month d)" and ?d = "decimal 2 (day d)"
  have len: "length ?y = 4" "length ?m = 2" "length ?d = 2"
    by (simp_all only: length_decimal)
  have iso: "isoformat d = ?y @ CHR ''-'' # ?m @ CHR ''-'' # ?d"
    by (simp add: isoformat_def)
  have l: "length (isoformat d) = 10" unfolding iso using len by simp
  have c4: "isoformat d ! 4 = CHR ''-''" unfolding iso using len by (simp add: nth_append)
  have c7: "isoformat d ! 7 = CHR ''-''" unfolding iso using len
    by (simp add: nth_append nth_Cons')
  have t4: "take 4 (isoformat d) = ?y" unfolding iso using len by simp
  have t2: "take 2 (drop 5 (isoformat d)) = ?m" unfolding iso using len by simp
  have d8: "drop 8 (isoformat d) = ?d" unfolding iso using len by simp
  from assms have b: "year d < 10 ^ 4" "month d < 10 ^ 2" "day d < 10 ^ 2"
    by (auto simp: valid_date_def days_in_month_def split: if_splits)
  have ny: "number 0 ?y = Some (year d)" using b(1) by (simp only: number_decimal mod_less)
  have nm: "number 0 ?m = Some (month d)" using b(2) by (simp only: number_decimal mod_less)
  have nd: "number 0 ?d = Some (day d)" using b(3) by (simp only: number_decimal mod_less)
  show ?thesis
    unfolding fromisoformat_def l c4 c7 t4 t2 d8 ny nm nd using assms by (simp add: Let_def date_eta)
qed

lemma isoformat_nonempty: "isoformat d \<noteq> []"
  by (simp add: isoformat_def)

lemma str_list_strings: "str_list (map JString ss) = Some ss"
  by (induction ss) auto

lemma status_round_trip: "MigrationStatus_of (JString (status_value st)) = Inr st"
  by (cases st) (simp_all add: MigrationStatus_of_def)

lemma load_saved_record:
  assumes "\<forall>d. migration_date m = Some d \<longrightarrow> valid_date d"
  shows "load_module nm (save_record m) = Inr (m\<lparr>name := nm\<rparr>)"
proof -
  have date: "load_migration_date
      (Some (case migration_date m of None \<Rightarrow> JNull | Some d \<Rightarrow> JString (isoformat d)))
        = Inr (migration_date m)"
  proof (cases "migration_date m")
    case None
    then show ?thesis by (simp add: load_migration_date_def)
  next
    case (Some d)
    with assms have "valid_date d" by simp
    then have "fromisoformat (isoformat d) = Inr d" by (rule fromisoformat_isoformat)
    with Some show ?thesis by (simp add: load_migration_date_def isoformat_nonempty)
  qed
  show ?thesis
    by (simp add: load_module_def save_record_def load_record_def status_round_trip date
        as_str_list_def str_list_strings as_blocking_issues_def as_notes_def)
qed

lemma save_items_append:
  "distinct (map fst mods) \<Longrightarrow> fst ` set mods \<inter> fst ` set data = {} \<Longrightarrow>
     save_items mods data = data @ map (\<lambda>item. (fst item, save_record (snd item))) mods"
proof (induction mods arbitrary: data)
  case Nil
  show ?case by simp
next
  case (Cons item mods)
  obtain nm m where item: "item = (nm, m)" by (cases item)
  from Cons.prems have fresh: "nm \<notin> fst ` set data" and d: "distinct (map fst mods)"
    and nm: "nm \<notin> fst ` set mods" and disj: "fst ` set mods \<inter> fst ` set data = {}"
    by (auto simp: item)
  have upd: "AList.update nm (save_record m) data = data @ [(nm, save_record m)]"
    using fresh by (induction data) auto
  from nm disj have "fst ` set mods \<inter> fst ` set (data @ [(nm, save_record m)]) = {}" by auto
  from Cons.IH [OF d this] upd show ?case by (simp add: item)
qed

lemma load_items_saved:
  "distinct (map fst mods) \<Longrightarrow> fst ` set mods \<inter> fst ` set acc = {} \<Longrightarrow>
   \<forall>item \<in> set mods. \<forall>d. migration_date (snd item) = Some d \<longrightarrow> valid_date d \<Longrightarrow>
     load_items (map (\<lambda>item. (fst item, save_record (snd item))) mods) acc
       = (None, acc @ map (\<lambda>item. (fst item, (snd item)\<lparr>name := fst item\<rparr>)) mods)"
proof (induction mods arbitrary: acc)
  case Nil
  show ?case by simp
next
  case (Cons item mods)
  obtain nm m where item: "item = (nm, m)" by (cases item)
  from Cons.prems have fresh: "nm \<notin> fst ` set acc" and d: "distinct (map fst mods)"
    and nm: "nm \<notin> fst ` set mods" and disj: "fst ` set mods \<inter> fst ` set acc = {}"
    and dates: "\<forall>item \<in> set mods. \<forall>d. migration_date (snd item) = Some d \<longrightarrow> valid_date d"
    and date: "\<forall>d. migration_date m = Some d \<longrightarrow> valid_date d"
    by (auto simp: item)
  have rec: "load_module nm (save_record m) = Inr (m\<lparr>name := nm\<rparr>)"
    using date by (rule load_saved_record)
  have upd: "AList.update nm (m\<lparr>name := nm\<rparr>) acc = acc @ [(nm, m\<lparr>name := nm\<rparr>)]"
    using fresh by (induction acc) auto
  from nm disj have "fst ` set mods \<inter> fst ` set (acc @ [(nm, m\<lparr>name := nm\<rparr>)]) = {}" by auto
  from Cons.IH [OF d this dates] rec upd show ?case by (simp add: item)
qed

text \<open>
  Claim C8. For every Fact Store (a dict, so with distinct keys, holding valid dates),
  loading the file that \<^verbatim>\<open>save_data\<close> wrote into a new tracker succeeds and yields the
  same module names in the same order, each mapped to the same status, dependencies,
  dependents, migration date, blocking issues and notes; the field \<^verbatim>\<open>name\<close> of a loaded
  module is its key, so a Fact Store whose modules are filed under their own names is
  reproduced as it was.
\<close>

theorem save_load_round_trip:
  assumes "distinct (map fst mods)"
    and "\<forall>item \<in> set mods. \<forall>d. migration_date (snd item) = Some d \<longrightarrow> valid_date d"
  shows "MigrationTracker_init today (save_data mods)
           = Inr (map (\<lambda>item. (fst item, (snd item)\<lparr>name := fst item\<rparr>)) mods)
         \<and> ((\<forall>item \<in> set mods. name (snd item) = fst item) \<longrightarrow>
              MigrationTracker_init today (save_data mods) = Inr mods)"
proof -
  have "save_items mods [] = [] @ map (\<lambda>item. (fst item, save_record (snd item))) mods"
    using assms(1) by (intro save_items_append) simp_all
  moreover have "load_items (map (\<lambda>item. (fst item, save_record (snd item))) mods) []
      = (None, [] @ map (\<lambda>item. (fst item, (snd item)\<lparr>name := fst item\<rparr>)) mods)"
    using assms by (intro load_items_saved) simp_all
  ultimately have loaded: "MigrationTracker_init today (save_data mods)
           = Inr (map (\<lambda>item. (fst item, (snd item)\<lparr>name := fst item\<rparr>)) mods)"
    by (simp add: MigrationTracker_init_def save_data_def load_data_def)
  have "map (\<lambda>item. (fst item, (snd item)\<lparr>name := fst item\<rparr>)) mods = mods"
    if "\<forall>item \<in> set mods. name (snd item) = fst item"
    using that by (induction mods) auto
  with loaded show ?thesis by simp
qed

theorem save_load_round_trip_witness:
  "distinct (map fst (initialize_default_modules example_date [])) \<and>
   map (migration_date \<circ> snd) (initialize_default_modules example_date [])
     = [Some example_date, None, None, None, None, None, None, None] \<and>
   valid_date example_date \<and>
   MigrationTracker_init \<lparr>year = 2026, month = 1, day = 1\<rparr>
       (save_data (initialize_default_modules example_date []))
     = Inr (initialize_default_modules example_date [])"
proof -
  let ?mods = "initialize_default_modules example_date []"
  have d: "distinct (map fst ?mods)"
    by (simp add: initialize_default_modules_def add_module_def)
  have v: "valid_date example_date"
    by (simp add: valid_date_def example_date_def days_in_month_def)
  have dates: "map (migration_date \<circ> snd) ?mods
     = [Some example_date, None, None, None, None, None, None, None]"
    by (simp add: initialize_default_modules_def add_module_def)
  have valid: "\<forall>item \<in> set ?mods. \<forall>d. migration_date (snd item) = Some d \<longrightarrow> valid_date d"
    using v by (simp add: initialize_default_modules_def add_module_def)
  have names: "\<forall>item \<in> set ?mods. name (snd item) = fst item"
    by (simp add: initialize_default_modules_def add_module_def)
  from save_load_round_trip [OF d valid, of "\<lparr>year = 2026, month = 1, day = 1\<rparr>"] names
  have "MigrationTracker_init \<lparr>year = 2026, month = 1, day = 1\<rparr> (save_data ?mods) = Inr ?mods"
    by blast
  with d dates v show ?thesis by blast
qed

lemma keys_update: "fst ` set (AList.update k v al) = insert k (fst ` set al)"
  by (induction al) auto

lemma keys_add_module:
  "fst ` set (add_module nm st deps dpts mdate issues nts mods) = insert nm (fst ` set mods)"
  by (simp add: add_module_def keys_update)

lemma default_modules_present:
  "{''UmbraErrors'', ''CoreDTOs'', ''UserDefaults'', ''SecurityInterfaces'', ''Notification'',
    ''Scheduling'', ''FileSystemTypes'', ''SecurityTypes''}
     \<subseteq> fst ` set (initialize_default_modules today mods)"
  unfolding initialize_default_modules_def Let_def keys_add_module by simp

text \<open>
  What the \<^verbatim>\<open>except\<close> clause recovers: a file on which \<^verbatim>\<open>json.load\<close> raises
  \<^verbatim>\<open>json.JSONDecodeError\<close>, and a record that lacks one of the keys \<^verbatim>\<open>status\<close>,
  \<^verbatim>\<open>dependencies\<close>, \<^verbatim>\<open>dependents\<close>. The dict then holds the eight default modules.
\<close>

lemma load_data_recovers:
  "load_data today NotJson mods = Inr (initialize_default_modules today mods)"
  "MigrationTracker_init today NotJson = Inr (initialize_default_modules today [])"
  "MigrationTracker_init today (Json (JObject [(''Core'', JObject [(''status'', JString ''Blocked'')])]))
     = Inr (initialize_default_modules today [])"
  "map fst (initialize_default_modules today []) =
     [''UmbraErrors'', ''CoreDTOs'', ''UserDefaults'', ''SecurityInterfaces'', ''Notification'',
      ''Scheduling'', ''FileSystemTypes'', ''SecurityTypes'']"
  by (simp_all add: MigrationTracker_init_def load_data_def load_module_def load_record_def
      MigrationStatus_of_def initialize_default_modules_def add_module_def)

text \<open>
  Claim C9 at four snapshots that cannot be turned into a Fact Store. The claim has
  \<^verbatim>\<open>_load_data\<close> fall back to the default modules on each of them. The \<^verbatim>\<open>except\<close> clause
  names only \<^verbatim>\<open>json.JSONDecodeError\<close> and \<^verbatim>\<open>KeyError\<close>, so on a record with an unknown status
  string (\<^verbatim>\<open>{"Core": {"status": "Done", "dependencies": [], "dependents": []}}\<close>), on a file
  whose bytes are not text, on a top-level value that is not a dict and on a record that
  is not a dict, the exception leaves \<^verbatim>\<open>_load_data\<close> and the constructor: no Fact Store is
  built.
\<close>

theorem load_data_aborts:
  "MigrationTracker_init today
     (Json (JObject [(''Core'', JObject [(''status'', JString ''Done''),
        (''dependencies'', JArray []), (''dependents'', JArray [])])]))
     = Inl (Raised ValueError)
   \<and> MigrationTracker_init today NotText = Inl (Raised UnicodeDecodeError)
   \<and> MigrationTracker_init today (Json (JArray [])) = Inl (Raised AttributeError)
   \<and> MigrationTracker_init today (Json (JObject [(''Core'', JString ''Blocked'')]))
     = Inl (Raised TypeError)"
  by (simp add: MigrationTracker_init_def load_data_def load_module_def load_record_def
      MigrationStatus_of_def)

text \<open>A date that no month holds is a \<^verbatim>\<open>ValueError\<close> as well, and it too leaves the method.\<close>

lemma load_data_bad_date:
  "MigrationTracker_init today (Json (JObject [(''Core'',
       JObject [(''status'', JString ''Blocked''), (''dependencies'', JArray []),
                (''dependents'', JArray []), (''migration_date'', JString ''2025-02-30'')])]))
     = Inl (Raised ValueError)"
  by (simp add: MigrationTracker_init_def load_data_def load_module_def load_record_def
      MigrationStatus_of_def load_migration_date_def fromisoformat_def digit_value_def
      valid_date_def days_in_month_def is_leap_def)

end
